theory Spec2Isabelle
  imports Main "HOL-Library.Word" "HOL-Library.Multiset" "HOL-Library.Option_ord"
begin

section \<open>The IR core of torch_xla: scopes, frontend attributes, nodes\<close>

text \<open>
  A shallow embedding of \<^verbatim>\<open>torch_xla/csrc/ir.cpp\<close>. Thread-local and process-wide
  state is passed explicitly and returned updated; a failed \<^verbatim>\<open>XLA_CHECK\<close>, an
  out-of-range \<^verbatim>\<open>at()\<close> and the dereference of a pointer to no live node are values of
  the type \<open>error\<close>.
\<close>

datatype error = CheckFailure | OutOfRange | InvalidPointer

subsection \<open>Rendering of unsigned integers (\<^verbatim>\<open>absl::StrCat\<close>, \<^verbatim>\<open>operator<<\<close>)\<close>

definition digit_char :: "nat \<Rightarrow> char" where
  "digit_char d = ''0123456789'' ! d"

function decimal :: "nat \<Rightarrow> string" where
  "decimal n = (if n < 10 then [digit_char n] else decimal (n div 10) @ [digit_char (n mod 10)])"
  by pat_completeness auto
termination
  by (relation "measure (\<lambda>n. n)") auto

declare decimal.simps [simp del]

subsection \<open>Scope stack\<close>

record ScapeEntry =
  name :: string
  saved_next_id :: "64 word"

record ScopeContext =
  scopes :: "ScapeEntry list"
  next_id :: "64 word"

text \<open>The value-initialised thread-local \<^verbatim>\<open>g_scope_context\<close>.\<close>

definition initial_scope_context :: ScopeContext where
  "initial_scope_context = \<lparr>scopes = [], next_id = 1\<rparr>"

definition PushScope :: "string \<Rightarrow> ScopeContext \<Rightarrow> ScopeContext" where
  "PushScope nm ctx =
     (let ident = next_id ctx in
      \<lparr>scopes = scopes ctx @ [\<lparr>name = nm @ ''.'' @ decimal (unat ident),
                               saved_next_id = next_id ctx + 1\<rparr>],
       next_id = 1\<rparr>)"

definition PopScope :: "ScopeContext \<Rightarrow> error + ScopeContext" where
  "PopScope ctx =
     (if scopes ctx = [] then Inl CheckFailure
      else Inr \<lparr>scopes = butlast (scopes ctx),
                next_id = saved_next_id (last (scopes ctx))\<rparr>)"

definition ResetScopeContext :: "ScopeContext \<Rightarrow> error + ScopeContext" where
  "ResetScopeContext ctx =
     (if length (scopes ctx) \<noteq> 0 then Inl CheckFailure else Inr (ctx\<lparr>next_id := 1\<rparr>))"

definition ScopeDepth :: "ScopeContext \<Rightarrow> error + nat" where
  "ScopeDepth ctx = (if scopes ctx = [] then Inl CheckFailure else Inr (length (scopes ctx)))"

fun GetCurrentScope_loop :: "string \<Rightarrow> ScapeEntry list \<Rightarrow> string" where
  "GetCurrentScope_loop s [] = s"
| "GetCurrentScope_loop s (scope_entry # rest) =
     GetCurrentScope_loop
       (if s = [] then s @ name scope_entry else s @ ''/'' @ name scope_entry) rest"

definition GetCurrentScope :: "ScopeContext \<Rightarrow> string" where
  "GetCurrentScope ctx = GetCurrentScope_loop [] (scopes ctx)"

subsection \<open>Frontend attributes\<close>

text \<open>
  The \<^verbatim>\<open>std::unordered_map<std::string, std::string>\<close> is an association list with one
  entry per key; its iteration order is not used by anything below.
\<close>

type_synonym attribute_map = "(string \<times> string) list"

definition map_find :: "attribute_map \<Rightarrow> string \<Rightarrow> string option" where
  "map_find m k = map_of m k"

definition map_assign :: "string \<Rightarrow> string \<Rightarrow> attribute_map \<Rightarrow> attribute_map" where
  "map_assign k v m = map (\<lambda>(k', v'). if k' = k then (k', v) else (k', v')) m"

definition map_erase :: "string \<Rightarrow> attribute_map \<Rightarrow> attribute_map" where
  "map_erase k m = filter (\<lambda>(k', v'). k' \<noteq> k) m"

definition map_emplace :: "string \<Rightarrow> string \<Rightarrow> attribute_map \<Rightarrow> attribute_map" where
  "map_emplace k v m = (case map_find m k of None \<Rightarrow> m @ [(k, v)] | Some _ \<Rightarrow> m)"

record FrontendAttributeContext =
  attributes :: attribute_map

definition initial_frontend_attribute_context :: FrontendAttributeContext where
  "initial_frontend_attribute_context = \<lparr>attributes = []\<rparr>"

record FrontendAttributePusher =
  prefix_depth :: bool
  key :: string
  previous_value :: string

definition FrontendAttributePusher_ctor ::
  "string \<Rightarrow> string \<Rightarrow> bool \<Rightarrow> FrontendAttributeContext
     \<Rightarrow> FrontendAttributePusher \<times> FrontendAttributeContext" where
  "FrontendAttributePusher_ctor k v pd ctx =
     (let key' = (if pd
                  then decimal (length (attributes ctx)) @ ''.'' @ k
                  else k)
      in case map_find (attributes ctx) key' of
           Some found \<Rightarrow>
             (\<lparr>prefix_depth = pd, key = key', previous_value = found\<rparr>,
              if v \<noteq> [] then ctx\<lparr>attributes := map_assign key' v (attributes ctx)\<rparr>
              else ctx\<lparr>attributes := map_erase key' (attributes ctx)\<rparr>)
         | None \<Rightarrow>
             (\<lparr>prefix_depth = pd, key = key', previous_value = []\<rparr>,
              ctx\<lparr>attributes := map_emplace key' v (attributes ctx)\<rparr>))"

definition FrontendAttributePusher_dtor ::
  "FrontendAttributePusher \<Rightarrow> FrontendAttributeContext \<Rightarrow> FrontendAttributeContext" where
  "FrontendAttributePusher_dtor p ctx =
     (case map_find (attributes ctx) (key p) of
        Some found \<Rightarrow>
          (if previous_value p = [] then ctx\<lparr>attributes := map_erase (key p) (attributes ctx)\<rparr>
           else ctx\<lparr>attributes := map_assign (key p) (previous_value p) (attributes ctx)\<rparr>)
      | None \<Rightarrow>
          (if previous_value p \<noteq> []
           then ctx\<lparr>attributes := map_emplace (key p) (previous_value p) (attributes ctx)\<rparr>
           else ctx))"

definition GetFrontendAttributes :: "FrontendAttributeContext \<Rightarrow> attribute_map" where
  "GetFrontendAttributes ctx = attributes ctx"

definition PythonAddFrontendAttribute ::
  "string \<Rightarrow> string \<Rightarrow> FrontendAttributeContext \<Rightarrow> FrontendAttributeContext" where
  "PythonAddFrontendAttribute k v ctx = ctx\<lparr>attributes := map_emplace k v (attributes ctx)\<rparr>"

definition PythonRemoveFrontendAttribute ::
  "string \<Rightarrow> FrontendAttributeContext \<Rightarrow> FrontendAttributeContext" where
  "PythonRemoveFrontendAttribute k ctx = ctx\<lparr>attributes := map_erase k (attributes ctx)\<rparr>"

subsection \<open>Collaborators outside this file\<close>

text \<open>
  Hashes are \<^verbatim>\<open>xla::hash_t\<close> values, 128 bits wide. The hash primitives of
  \<^verbatim>\<open>xla::util\<close>, the symbol table of \<^verbatim>\<open>c10::Symbol\<close>, the printer of
  \<^verbatim>\<open>xla::Shape\<close>, the Python frame capture and \<^verbatim>\<open>is_autograd_thread\<close> are not part
  of \<^verbatim>\<open>ir.cpp\<close>. They are parameters of the model: nothing is assumed about them.
\<close>

type_synonym hash_t = "128 word"

record SourceLocation =
  file_name :: string
  function_name :: string
  line_number :: int

datatype Shape = ArrayShape nat "nat list" | TupleShape "Shape list"

record externals =
  HashCombine :: "hash_t \<Rightarrow> hash_t \<Rightarrow> hash_t"
  StringHash :: "string \<Rightarrow> hash_t"
  Hash :: "string \<Rightarrow> hash_t"
  toQualString :: "nat \<Rightarrow> string"
  ShapeToString :: "Shape \<Rightarrow> string"
  GetFrameInfo :: "SourceLocation list"
  is_autograd_thread :: bool

subsection \<open>Shapes\<close>

text \<open>
  Of \<^verbatim>\<open>xla::Shape\<close> the code uses the default constructor, \<^verbatim>\<open>IsTuple\<close>,
  \<^verbatim>\<open>tuple_shapes(i)\<close> and \<^verbatim>\<open>ToString\<close>. An array shape is an element type and its
  dimensions; the default shape has the invalid element type 0 and no dimension. Asking a
  tuple shape for a component it does not have is an out-of-range access.
\<close>

definition Shape_default :: Shape where
  "Shape_default = ArrayShape 0 []"

fun IsTuple :: "Shape \<Rightarrow> bool" where
  "IsTuple (TupleShape ss) = True"
| "IsTuple (ArrayShape t ds) = False"

fun tuple_shapes :: "Shape \<Rightarrow> nat \<Rightarrow> error + Shape" where
  "tuple_shapes (TupleShape ss) i = (if i < length ss then Inr (ss ! i) else Inl OutOfRange)"
| "tuple_shapes (ArrayShape t ds) i = Inl OutOfRange"

subsection \<open>Nodes, outputs, uses\<close>

datatype OpKind = OpKind (sym: nat)

definition OpKind_hash :: "externals \<Rightarrow> OpKind \<Rightarrow> hash_t" where
  "OpKind_hash ext k = StringHash ext (toQualString ext (sym k))"

datatype Output = Output (Output_node: nat) (Output_index: nat)

datatype Value = Value (Value_node: nat) (Value_index: nat)

datatype Use = Use (Use_node: nat) (operand_index: nat) (Use_index: nat)

record MetaData =
  scope :: string
  frame_info :: "SourceLocation list"
  frontend_attributes :: attribute_map

record Node =
  op :: OpKind
  num_outputs :: nat
  shape :: Shape
  node_hash :: hash_t
  hash :: hash_t
  operands :: "nat list"
  operands_as_outputs :: "Output list"
  uses :: "Use list"
  metadata :: MetaData
  is_autograd :: bool

text \<open>The heap: the live nodes, by address. A \<^verbatim>\<open>Node*\<close> or \<^verbatim>\<open>NodePtr\<close> is an address.\<close>

type_synonym graph = "nat \<Rightarrow> Node option"

definition Node_shape :: "Node \<Rightarrow> nat \<Rightarrow> error + Shape" where
  "Node_shape n output_index =
     (if IsTuple (shape n) then tuple_shapes (shape n) output_index
      else if output_index \<noteq> 0 then Inl CheckFailure
      else Inr (shape n))"

text \<open>
  \<^verbatim>\<open>Use::operator<\<close> reads the operator of both consumers through their pointers; a
  use whose consumer is not live has no operator (\<open>None\<close>, below every operator).
  Modelled from the spec: the comparison operators of \<^verbatim>\<open>OpKind\<close> are declared in
  \<^verbatim>\<open>ir.h\<close>, which is not among the sources; two operator kinds are equal when their
  interned symbols are, and are ordered by the interned values.
\<close>

definition Use_op :: "graph \<Rightarrow> Use \<Rightarrow> nat option" where
  "Use_op g u = map_option (\<lambda>n. sym (op n)) (g (Use_node u))"

definition Use_less :: "graph \<Rightarrow> Use \<Rightarrow> Use \<Rightarrow> bool" where
  "Use_less g lhs rhs =
     (if Use_op g lhs \<noteq> Use_op g rhs then Use_op g lhs < Use_op g rhs
      else if operand_index lhs \<noteq> operand_index rhs then operand_index lhs < operand_index rhs
      else Use_index lhs < Use_index rhs)"

subsection \<open>The use set\<close>

text \<open>
  Modelled from the spec: the member \<^verbatim>\<open>uses_\<close> and the helpers \<^verbatim>\<open>AddUse\<close> and
  \<^verbatim>\<open>RemoveUse\<close> are declared in \<^verbatim>\<open>ir.h\<close>, which is not among the sources. The spec
  stores the uses of a node in an ordered set under the order of \<^verbatim>\<open>Use::operator<\<close>.
  An ordered set holds at most one element of each equivalence class of its order (two
  elements neither of which is less than the other): inserting an element equivalent to a
  stored one leaves the set as it is, and erasing by key removes what is equivalent to the
  key. The set is the list of its elements in iteration order.
\<close>

definition Use_equiv :: "graph \<Rightarrow> Use \<Rightarrow> Use \<Rightarrow> bool" where
  "Use_equiv g u v = (\<not> Use_less g u v \<and> \<not> Use_less g v u)"

fun set_insert :: "graph \<Rightarrow> Use \<Rightarrow> Use list \<Rightarrow> Use list" where
  "set_insert g u [] = [u]"
| "set_insert g u (v # vs) =
     (if Use_less g u v then u # v # vs
      else if Use_less g v u then v # set_insert g u vs
      else v # vs)"

definition set_erase :: "graph \<Rightarrow> Use \<Rightarrow> Use list \<Rightarrow> Use list" where
  "set_erase g u vs = filter (\<lambda>v. \<not> Use_equiv g u v) vs"

text \<open>
  Modelled from the spec: \<^verbatim>\<open>Node::AddUse\<close> (declared in \<^verbatim>\<open>ir.h\<close>) inserts the use
  into the use set of the node.
\<close>

definition AddUse :: "graph \<Rightarrow> nat \<Rightarrow> Use \<Rightarrow> error + graph" where
  "AddUse g this u =
     (case g this of
        None \<Rightarrow> Inl InvalidPointer
      | Some t \<Rightarrow> Inr (g(this \<mapsto> t\<lparr>uses := set_insert g u (uses t)\<rparr>)))"

text \<open>
  Modelled from the spec: \<^verbatim>\<open>Node::RemoveUse\<close> (declared in \<^verbatim>\<open>ir.h\<close>) erases the
  use from the use set of the node.
\<close>

definition RemoveUse :: "graph \<Rightarrow> nat \<Rightarrow> Use \<Rightarrow> error + graph" where
  "RemoveUse g this u =
     (case g this of
        None \<Rightarrow> Inl InvalidPointer
      | Some t \<Rightarrow> Inr (g(this \<mapsto> t\<lparr>uses := set_erase g u (uses t)\<rparr>)))"

subsection \<open>Operand bookkeeping\<close>

text \<open>
  The reference counts of \<^verbatim>\<open>NodePtr\<close> are not modelled: a node leaves the heap only
  through \<open>Node_dtor\<close>.
\<close>

definition AddOperand :: "graph \<Rightarrow> nat \<Rightarrow> nat \<Rightarrow> nat \<Rightarrow> error + graph" where
  "AddOperand g this nd idx =
     (case g nd of
        None \<Rightarrow> Inl InvalidPointer
      | Some n \<Rightarrow>
          if \<not> idx < num_outputs n then Inl CheckFailure
          else (case g this of
                  None \<Rightarrow> Inl InvalidPointer
                | Some t \<Rightarrow>
                    AddUse (g(this \<mapsto> t\<lparr>operands := operands t @ [nd],
                                         operands_as_outputs :=
                                           operands_as_outputs t @ [Output nd idx]\<rparr>))
                      nd (Use this (length (operands t @ [nd]) - 1) idx)))"

definition ReplaceOperand :: "graph \<Rightarrow> nat \<Rightarrow> nat \<Rightarrow> nat \<Rightarrow> nat \<Rightarrow> error + graph" where
  "ReplaceOperand g this operand_no nd idx =
     (case g nd of
        None \<Rightarrow> Inl InvalidPointer
      | Some n \<Rightarrow>
          if \<not> idx < num_outputs n then Inl CheckFailure
          else (case g this of
                  None \<Rightarrow> Inl InvalidPointer
                | Some t \<Rightarrow>
                    if \<not> operand_no < length (operands_as_outputs t) then Inl OutOfRange
                    else if \<not> operand_no < length (operands t) then Inl InvalidPointer
                    else (case RemoveUse g (operands t ! operand_no)
                                 (Use this operand_no
                                    (Output_index (operands_as_outputs t ! operand_no))) of
                            Inl e \<Rightarrow> Inl e
                          | Inr g1 \<Rightarrow>
                              (case AddUse g1 nd (Use this operand_no idx) of
                                 Inl e \<Rightarrow> Inl e
                               | Inr g2 \<Rightarrow>
                                   (case g2 this of
                                      None \<Rightarrow> Inl InvalidPointer
                                    | Some t2 \<Rightarrow>
                                        Inr (g2(this \<mapsto> t2
                                          \<lparr>operands := (operands t2)[operand_no := nd],
                                           operands_as_outputs :=
                                             (operands_as_outputs t2)
                                               [operand_no := Output nd idx]\<rparr>)))))))"

fun ReplaceAllUsesWith_loop :: "graph \<Rightarrow> Use list \<Rightarrow> nat \<Rightarrow> nat \<Rightarrow> error + graph" where
  "ReplaceAllUsesWith_loop g [] nd idx = Inr g"
| "ReplaceAllUsesWith_loop g (u # current_uses) nd idx =
     (case ReplaceOperand g (Use_node u) (operand_index u) nd idx of
        Inl e \<Rightarrow> Inl e
      | Inr g' \<Rightarrow> ReplaceAllUsesWith_loop g' current_uses nd idx)"

definition ReplaceAllUsesWith :: "graph \<Rightarrow> nat \<Rightarrow> nat \<Rightarrow> nat \<Rightarrow> error + graph" where
  "ReplaceAllUsesWith g this nd idx =
     (case g this of
        None \<Rightarrow> Inl InvalidPointer
      | Some t \<Rightarrow> ReplaceAllUsesWith_loop g (uses t) nd idx)"

fun Node_dtor_loop :: "graph \<Rightarrow> nat \<Rightarrow> Node \<Rightarrow> nat list \<Rightarrow> error + graph" where
  "Node_dtor_loop g this t [] = Inr g"
| "Node_dtor_loop g this t (i # rest) =
     (if \<not> i < length (operands t) then Inl InvalidPointer
      else (case RemoveUse g (operands t ! i)
                   (Use this i (Output_index (operands_as_outputs t ! i))) of
              Inl e \<Rightarrow> Inl e
            | Inr g' \<Rightarrow> Node_dtor_loop g' this t rest))"

definition Node_dtor :: "graph \<Rightarrow> nat \<Rightarrow> error + graph" where
  "Node_dtor g this =
     (case g this of
        None \<Rightarrow> Inl InvalidPointer
      | Some t \<Rightarrow>
          (case Node_dtor_loop g this t [0 ..< length (operands_as_outputs t)] of
             Inl e \<Rightarrow> Inl e
           | Inr g' \<Rightarrow> Inr (g'(this := None))))"

subsection \<open>Hashes\<close>

definition Value_hash :: "externals \<Rightarrow> graph \<Rightarrow> Value \<Rightarrow> error + hash_t" where
  "Value_hash ext g v =
     (case g (Value_node v) of
        None \<Rightarrow> Inl InvalidPointer
      | Some n \<Rightarrow> Inr (HashCombine ext (hash n) (of_nat (Value_index v))))"

definition Output_hash :: "externals \<Rightarrow> graph \<Rightarrow> Output \<Rightarrow> error + hash_t" where
  "Output_hash ext g out =
     (case g (Output_node out) of
        None \<Rightarrow> Inl InvalidPointer
      | Some n \<Rightarrow> Inr (HashCombine ext (hash n) (of_nat (Output_index out))))"

definition GetOpHash :: "externals \<Rightarrow> OpKind \<Rightarrow> Shape \<Rightarrow> hash_t \<Rightarrow> hash_t" where
  "GetOpHash ext k shp hash_seed =
     (let h = HashCombine ext (OpKind_hash ext k) (Hash ext (ShapeToString ext shp))
      in HashCombine ext h hash_seed)"

subsection \<open>Shape cache\<close>

text \<open>
  Modelled from the spec: \<^verbatim>\<open>xla::util::Cache\<close> is not among the sources. The spec
  describes a mapping from hash to shape of bounded capacity with
  least-recently-used eviction, filled by lookup-then-populate. The entries are kept most
  recently used first; a lookup that hits moves its entry to the front; an insertion puts
  the entry at the front and, when the capacity is exceeded, drops the last one.
\<close>

record ShapeCache =
  max_size :: nat
  element_list :: "(hash_t \<times> Shape) list"

definition GetShapeCache :: "nat \<Rightarrow> ShapeCache" where
  "GetShapeCache shape_cache_size = \<lparr>max_size = shape_cache_size, element_list = []\<rparr>"

definition DoLRU :: "hash_t \<Rightarrow> Shape \<Rightarrow> (hash_t \<times> Shape) list \<Rightarrow> (hash_t \<times> Shape) list" where
  "DoLRU k v l = (k, v) # filter (\<lambda>(k', v'). k' \<noteq> k) l"

definition Cache_Get :: "ShapeCache \<Rightarrow> hash_t \<Rightarrow> Shape option \<times> ShapeCache" where
  "Cache_Get c k =
     (case map_of (element_list c) k of
        None \<Rightarrow> (None, c)
      | Some v \<Rightarrow> (Some v, c\<lparr>element_list := DoLRU k v (element_list c)\<rparr>))"

definition Cache_Add :: "ShapeCache \<Rightarrow> hash_t \<Rightarrow> Shape \<Rightarrow> Shape \<times> ShapeCache" where
  "Cache_Add c k v =
     (case map_of (element_list c) k of
        Some v' \<Rightarrow> (v', c\<lparr>element_list := DoLRU k v' (element_list c)\<rparr>)
      | None \<Rightarrow>
          (if length ((k, v) # element_list c) > max_size c
           then (v, c\<lparr>element_list := butlast ((k, v) # element_list c)\<rparr>)
           else (v, c\<lparr>element_list := (k, v) # element_list c\<rparr>)))"

text \<open>
  \<^verbatim>\<open>Node::GetOpShape\<close>. The third component of the result counts the calls of the
  shape function made by this request.
\<close>

definition GetOpShape ::
  "ShapeCache \<Rightarrow> Node \<Rightarrow> (unit \<Rightarrow> Shape) \<Rightarrow> Shape \<times> ShapeCache \<times> nat" where
  "GetOpShape shape_cache t shape_fn =
     (case Cache_Get shape_cache (hash t) of
        (Some v, c) \<Rightarrow> (v, c, 0)
      | (None, c) \<Rightarrow>
          (case Cache_Add c (hash t) (shape_fn ()) of (v, c') \<Rightarrow> (v, c', 1)))"

text \<open>A sequence of requests, each by a node and its shape function, threading the cache.\<close>

fun GetOpShape_requests :: "ShapeCache \<Rightarrow> (Node \<times> (unit \<Rightarrow> Shape)) list \<Rightarrow> ShapeCache" where
  "GetOpShape_requests c [] = c"
| "GetOpShape_requests c ((t, shape_fn) # rest) =
     (case GetOpShape c t shape_fn of (v, c', calls) \<Rightarrow> GetOpShape_requests c' rest)"

subsection \<open>Constructors\<close>

record thread_state =
  g_scope_context :: ScopeContext
  g_frontend_attribute_context :: FrontendAttributeContext

text \<open>
  The member initialisers and the metadata assignments shared by the constructors; the
  node hash is the one the constructor computes.
\<close>

definition Node_init ::
  "externals \<Rightarrow> thread_state \<Rightarrow> OpKind \<Rightarrow> Shape \<Rightarrow> nat \<Rightarrow> hash_t \<Rightarrow> Node" where
  "Node_init ext ts k shp n_out h =
     \<lparr>op = k, num_outputs = n_out, shape = shp, node_hash = h, hash = h,
      operands = [], operands_as_outputs = [], uses = [],
      metadata = \<lparr>scope = GetCurrentScope (g_scope_context ts),
                  frame_info = GetFrameInfo ext,
                  frontend_attributes =
                    GetFrontendAttributes (g_frontend_attribute_context ts)\<rparr>,
      is_autograd = is_autograd_thread ext\<rparr>"

fun Node_ctor_loop :: "externals \<Rightarrow> graph \<Rightarrow> nat \<Rightarrow> Value list \<Rightarrow> error + graph" where
  "Node_ctor_loop ext g this [] = Inr g"
| "Node_ctor_loop ext g this (operand # rest) =
     (case AddOperand g this (Value_node operand) (Value_index operand) of
        Inl e \<Rightarrow> Inl e
      | Inr g1 \<Rightarrow>
          (case Value_hash ext g1 operand of
             Inl e \<Rightarrow> Inl e
           | Inr h \<Rightarrow>
               (case g1 this of
                  None \<Rightarrow> Inl InvalidPointer
                | Some t \<Rightarrow>
                    Node_ctor_loop ext (g1(this \<mapsto> t\<lparr>hash := HashCombine ext (hash t) h\<rparr>))
                      this rest)))"

text \<open>
  \<open>this\<close> is the address of the object under construction, which the allocator picks
  among the addresses of no live node.

  A failed check ends the operation: the result is the error, without a heap. When
  \<^verbatim>\<open>AddOperand\<close> fails for a later operand, the uses that the earlier iterations have
  added to their operands are not rolled back by the source; the result \<open>Inl e\<close> does not
  record them. The statements below on the heap after an operation are therefore statements
  on operations that return, and \<open>reachable\<close> has no rule for an operation that fails.
\<close>

definition Node_ctor ::
  "externals \<Rightarrow> thread_state \<Rightarrow> graph \<Rightarrow> nat \<Rightarrow> OpKind \<Rightarrow> Value list \<Rightarrow> Shape \<Rightarrow> nat \<Rightarrow> hash_t
     \<Rightarrow> error + graph" where
  "Node_ctor ext ts g this k ops shp n_out hash_seed =
     (if g this \<noteq> None then Inl InvalidPointer
      else Node_ctor_loop ext
             (g(this \<mapsto> Node_init ext ts k shp n_out
                            (HashCombine ext (OpKind_hash ext k) hash_seed)))
             this ops)"

definition Node_ctor_lazy ::
  "externals \<Rightarrow> thread_state \<Rightarrow> ShapeCache \<Rightarrow> graph \<Rightarrow> nat \<Rightarrow> OpKind \<Rightarrow> Value list
     \<Rightarrow> (unit \<Rightarrow> Shape) \<Rightarrow> nat \<Rightarrow> hash_t \<Rightarrow> error + (graph \<times> ShapeCache \<times> nat)" where
  "Node_ctor_lazy ext ts shape_cache g this k ops shape_fn n_out hash_seed =
     (case Node_ctor ext ts g this k ops Shape_default n_out hash_seed of
        Inl e \<Rightarrow> Inl e
      | Inr g1 \<Rightarrow>
          (case g1 this of
             None \<Rightarrow> Inl InvalidPointer
           | Some t \<Rightarrow>
               (case GetOpShape shape_cache t shape_fn of
                  (v, c, calls) \<Rightarrow> Inr (g1(this \<mapsto> t\<lparr>shape := v\<rparr>), c, calls))))"

definition Node_ctor_leaf ::
  "externals \<Rightarrow> thread_state \<Rightarrow> graph \<Rightarrow> nat \<Rightarrow> OpKind \<Rightarrow> Shape \<Rightarrow> nat \<Rightarrow> hash_t
     \<Rightarrow> error + graph" where
  "Node_ctor_leaf ext ts g this k shp n_out hash_seed =
     (if g this \<noteq> None then Inl InvalidPointer
      else Inr (g(this \<mapsto> Node_init ext ts k shp n_out (GetOpHash ext k shp hash_seed))))"

text \<open>
  The value the constructor with an operand list leaves in \<^verbatim>\<open>hash_\<close>, as a function of
  the hashes of the operands in their order (lemma \<open>Node_ctor_result\<close> below), and the
  precondition of \<^verbatim>\<open>AddOperand\<close> on an operand.
\<close>

definition Node_full_hash :: "externals \<Rightarrow> OpKind \<Rightarrow> hash_t \<Rightarrow> hash_t list \<Rightarrow> hash_t" where
  "Node_full_hash ext k hash_seed hs =
     foldl (HashCombine ext) (HashCombine ext (OpKind_hash ext k) hash_seed) hs"

definition valid_operand :: "graph \<Rightarrow> Value \<Rightarrow> bool" where
  "valid_operand g v =
     (case g (Value_node v) of None \<Rightarrow> False | Some n \<Rightarrow> Value_index v < num_outputs n)"

text \<open>The hash of an operand as a plain value (0 for a pointer to no live node).\<close>

definition operand_hash :: "externals \<Rightarrow> graph \<Rightarrow> Value \<Rightarrow> hash_t" where
  "operand_hash ext g v = (case Value_hash ext g v of Inr h \<Rightarrow> h | Inl e \<Rightarrow> 0)"

subsection \<open>Invariant of the use sets\<close>

text \<open>
  The two operand vectors of a node have the same length, and every use recorded on a node
  is an operand edge of its consumer: the consumer is live and holds, at the slot of the
  use, this node and the output index of the use.
\<close>

definition operands_aligned :: "graph \<Rightarrow> bool" where
  "operands_aligned g =
     (\<forall>p n. g p = Some n \<longrightarrow> length (operands n) = length (operands_as_outputs n))"

definition uses_consistent :: "graph \<Rightarrow> bool" where
  "uses_consistent g =
     (\<forall>p n u. g p = Some n \<and> u \<in> set (uses n) \<longrightarrow>
        (\<exists>c. g (Use_node u) = Some c
           \<and> operand_index u < length (operands c)
           \<and> operand_index u < length (operands_as_outputs c)
           \<and> operands c ! operand_index u = p
           \<and> operands_as_outputs c ! operand_index u = Output p (Use_index u)))"

text \<open>The heaps that the operations of this file build from the empty heap.\<close>

inductive reachable :: "graph \<Rightarrow> bool" where
  reachable_empty: "reachable Map.empty"
| reachable_leaf:
    "reachable g \<Longrightarrow> Node_ctor_leaf ext ts g this k shp n_out hash_seed = Inr g' \<Longrightarrow>
     reachable g'"
| reachable_node:
    "reachable g \<Longrightarrow> Node_ctor ext ts g this k ops shp n_out hash_seed = Inr g' \<Longrightarrow>
     reachable g'"
| reachable_lazy:
    "reachable g \<Longrightarrow>
     Node_ctor_lazy ext ts shape_cache g this k ops shape_fn n_out hash_seed = Inr (g', c, calls) \<Longrightarrow>
     reachable g'"
| reachable_replace:
    "reachable g \<Longrightarrow> ReplaceOperand g this slot nd idx = Inr g' \<Longrightarrow> reachable g'"
| reachable_replace_all:
    "reachable g \<Longrightarrow> ReplaceAllUsesWith g this nd idx = Inr g' \<Longrightarrow> reachable g'"
| reachable_destroy:
    "reachable g \<Longrightarrow> Node_dtor g this = Inr g' \<Longrightarrow> reachable g'"

subsection \<open>Example data for the closed instances\<close>

definition example_node :: "nat \<Rightarrow> Shape \<Rightarrow> nat \<Rightarrow> Node" where
  "example_node k shp n_out =
     \<lparr>op = OpKind k, num_outputs = n_out, shape = shp, node_hash = 0, hash = 0,
      operands = [], operands_as_outputs = [], uses = [],
      metadata = \<lparr>scope = [], frame_info = [], frontend_attributes = []\<rparr>,
      is_autograd = False\<rparr>"

definition example_externals :: externals where
  "example_externals =
     \<lparr>HashCombine = (\<lambda>a b. 31 * a + b), StringHash = (\<lambda>s. of_nat (length s)),
      Hash = (\<lambda>s. of_nat (length s)), toQualString = decimal,
      ShapeToString = (\<lambda>s. ''shape''), GetFrameInfo = [], is_autograd_thread = False\<rparr>"

definition example_thread_state :: thread_state where
  "example_thread_state =
     \<lparr>g_scope_context = initial_scope_context,
      g_frontend_attribute_context = initial_frontend_attribute_context\<rparr>"

definition example_graph :: graph where
  "example_graph =
     [1 \<mapsto> example_node 1 (ArrayShape 1 [2]) 1, 2 \<mapsto> example_node 2 (ArrayShape 1 [2]) 1]"

text \<open>
  Two leaves at the addresses 1 and 2 and two consumers of the same operator kind at 3 and
  4, each with output 0 of node 1 as its only operand, built by the constructors from the
  empty heap.
\<close>

definition then_do :: "error + 'a \<Rightarrow> ('a \<Rightarrow> error + 'b) \<Rightarrow> error + 'b" where
  "then_do r f = (case r of Inl e \<Rightarrow> Inl e | Inr x \<Rightarrow> f x)"

definition two_consumers :: "error + graph" where
  "two_consumers =
     then_do (Node_ctor_leaf example_externals example_thread_state Map.empty 1 (OpKind 1)
                (ArrayShape 1 [2]) 1 0) (\<lambda>g.
     then_do (Node_ctor_leaf example_externals example_thread_state g 2 (OpKind 2)
                (ArrayShape 1 [2]) 1 0) (\<lambda>g.
     then_do (Node_ctor example_externals example_thread_state g 3 (OpKind 3) [Value 1 0]
                (ArrayShape 1 [2]) 1 0) (\<lambda>g.
     Node_ctor example_externals example_thread_state g 4 (OpKind 3) [Value 1 0]
       (ArrayShape 1 [2]) 1 0)))"

text \<open>
  The same four nodes, with the consumer at 4 taking output 0 of node 2 instead.
\<close>

definition separate_consumers :: "error + graph" where
  "separate_consumers =
     then_do (Node_ctor_leaf example_externals example_thread_state Map.empty 1 (OpKind 1)
                (ArrayShape 1 [2]) 1 0) (\<lambda>g.
     then_do (Node_ctor_leaf example_externals example_thread_state g 2 (OpKind 2)
                (ArrayShape 1 [2]) 1 0) (\<lambda>g.
     then_do (Node_ctor example_externals example_thread_state g 3 (OpKind 3) [Value 1 0]
                (ArrayShape 1 [2]) 1 0) (\<lambda>g.
     Node_ctor example_externals example_thread_state g 4 (OpKind 3) [Value 2 0]
       (ArrayShape 1 [2]) 1 0)))"


section \<open>Properties\<close>

subsection \<open>Scope rendering\<close>

lemma decimal_digit: "n < 10 \<Longrightarrow> decimal n = [digit_char n]"
  by (simp add: decimal.simps)

text \<open>
  C6. From the empty scope stack with the id counter at 1, pushing "a" and then "b" renders
  the current scope as "a.1/b.1"; popping once and pushing "b" again renders it as
  "a.1/b.2".
\<close>

theorem C6_scope_rendering:
  "GetCurrentScope (PushScope ''b'' (PushScope ''a'' initial_scope_context)) = ''a.1/b.1''
   \<and> (case PopScope (PushScope ''b'' (PushScope ''a'' initial_scope_context)) of
        Inl e \<Rightarrow> False
      | Inr ctx \<Rightarrow> GetCurrentScope (PushScope ''b'' ctx) = ''a.1/b.2'')"
  by (simp add: GetCurrentScope_def PushScope_def PopScope_def initial_scope_context_def
      decimal_digit digit_char_def Let_def)

subsection \<open>Frontend attributes\<close>

lemma map_find_emplace:
  "map_find (map_emplace k v m) k' =
     (case map_find m k of
        None \<Rightarrow> if k' = k then Some v else map_find m k'
      | Some w \<Rightarrow> map_find m k')"
  by (simp add: map_find_def map_emplace_def map_add_def split: option.splits)

lemma map_find_erase: "map_find (map_erase k m) k' = (if k' = k then None else map_find m k')"
  unfolding map_find_def map_erase_def by (induction m) auto

text \<open>
  C9. \<^verbatim>\<open>PythonAddFrontendAttribute(key, value)\<close> inserts the pair only when the key is
  absent from the attribute map; when the key is present the context is left as it was, the
  stored value included.
\<close>

theorem C9_add_attribute_keeps_present_key:
  "(map_find (attributes ctx) k = None \<longrightarrow>
      map_find (attributes (PythonAddFrontendAttribute k v ctx)) k = Some v
      \<and> (\<forall>k'. k' \<noteq> k \<longrightarrow> map_find (attributes (PythonAddFrontendAttribute k v ctx)) k'
                          = map_find (attributes ctx) k'))
   \<and> (map_find (attributes ctx) k \<noteq> None \<longrightarrow> PythonAddFrontendAttribute k v ctx = ctx)"
  by (auto simp: PythonAddFrontendAttribute_def map_find_emplace)
     (simp add: map_emplace_def)

theorem C9_add_attribute_witness:
  "map_find (attributes \<lparr>attributes = [(''a'', ''1'')]\<rparr>) ''b'' = None
   \<and> map_find (attributes (PythonAddFrontendAttribute ''b'' ''2'' \<lparr>attributes = [(''a'', ''1'')]\<rparr>)) ''b''
       = Some ''2''
   \<and> map_find (attributes \<lparr>attributes = [(''a'', ''1'')]\<rparr>) ''a'' \<noteq> None
   \<and> PythonAddFrontendAttribute ''a'' ''2'' \<lparr>attributes = [(''a'', ''1'')]\<rparr>
       = \<lparr>attributes = [(''a'', ''1'')]\<rparr>"
  using C9_add_attribute_keeps_present_key [of "\<lparr>attributes = [(''a'', ''1'')]\<rparr>" "''b''" "''2''"]
    C9_add_attribute_keeps_present_key [of "\<lparr>attributes = [(''a'', ''1'')]\<rparr>" "''a''" "''2''"]
  by (simp add: map_find_def)

lemma pusher_empty_value_present_key:
  "map_find (attributes ctx) k \<noteq> None \<Longrightarrow>
   map_find (attributes (snd (FrontendAttributePusher_ctor k [] False ctx))) k = None"
  by (auto simp: FrontendAttributePusher_ctor_def map_find_erase)

lemma pusher_empty_value_absent_key:
  "map_find (attributes ctx) k = None \<Longrightarrow>
   map_find (attributes (snd (FrontendAttributePusher_ctor k [] False ctx))) k = Some []"
  by (simp add: FrontendAttributePusher_ctor_def map_find_emplace)

text \<open>
  C7. A scoped push with the empty value is meant to leave the key absent for the scope.
  On the empty attribute map the constructor takes the branch of the absent key, which
  emplaces the pair: the key is present, bound to the empty string.
\<close>

theorem C7_empty_push_on_absent_key_inserts:
  "map_find
     (attributes (snd (FrontendAttributePusher_ctor ''k'' [] False
                         initial_frontend_attribute_context))) ''k'' = Some []"
  by (simp add: FrontendAttributePusher_ctor_def initial_frontend_attribute_context_def
      map_find_def map_emplace_def Let_def)

subsection \<open>Shapes of outputs\<close>

lemma Node_shape_tuple_out_of_range:
  "shape n = TupleShape ss \<Longrightarrow> length ss \<le> i \<Longrightarrow> Node_shape n i = Inl OutOfRange"
  by (simp add: Node_shape_def)

text \<open>
  C8. On a node whose declared shape is a tuple, \<^verbatim>\<open>shape(i)\<close> is the i-th component of
  the tuple; on a node whose declared shape is not a tuple, \<^verbatim>\<open>shape(0)\<close> is the whole
  shape and \<^verbatim>\<open>shape(i)\<close> with i not 0 fails the check.
\<close>

theorem C8_Node_shape:
  "(\<forall>ss. shape n = TupleShape ss \<and> i < length ss \<longrightarrow> Node_shape n i = Inr (ss ! i))
   \<and> (\<not> IsTuple (shape n) \<longrightarrow>
        Node_shape n 0 = Inr (shape n) \<and> (i \<noteq> 0 \<longrightarrow> Node_shape n i = Inl CheckFailure))"
  by (simp add: Node_shape_def)

theorem C8_Node_shape_witness:
  "shape (example_node 1 (TupleShape [ArrayShape 1 [2], ArrayShape 1 [3]]) 2)
     = TupleShape [ArrayShape 1 [2], ArrayShape 1 [3]]
   \<and> (1::nat) < length [ArrayShape 1 [2], ArrayShape 1 [3]]
   \<and> Node_shape (example_node 1 (TupleShape [ArrayShape 1 [2], ArrayShape 1 [3]]) 2) 1
       = Inr (ArrayShape 1 [3])
   \<and> \<not> IsTuple (shape (example_node 1 (ArrayShape 1 [2]) 1))
   \<and> Node_shape (example_node 1 (ArrayShape 1 [2]) 1) 0 = Inr (ArrayShape 1 [2])
   \<and> (1::nat) \<noteq> 0
   \<and> Node_shape (example_node 1 (ArrayShape 1 [2]) 1) 1 = Inl CheckFailure"
  using C8_Node_shape [of "example_node 1 (TupleShape [ArrayShape 1 [2], ArrayShape 1 [3]]) 2" 1]
    C8_Node_shape [of "example_node 1 (ArrayShape 1 [2]) 1" 1]
  by (simp add: example_node_def)

subsection \<open>What the operand bookkeeping leaves unchanged\<close>

lemma AddUse_cases:
  "AddUse g p u = Inr g' \<Longrightarrow>
   \<exists>t. g p = Some t \<and> g' = g(p \<mapsto> t\<lparr>uses := set_insert g u (uses t)\<rparr>)"
  by (auto simp: AddUse_def split: option.splits)

lemma RemoveUse_cases:
  "RemoveUse g p u = Inr g' \<Longrightarrow>
   \<exists>t. g p = Some t \<and> g' = g(p \<mapsto> t\<lparr>uses := set_erase g u (uses t)\<rparr>)"
  by (auto simp: RemoveUse_def split: option.splits)

lemma AddOperand_cases:
  "AddOperand g this nd idx = Inr g' \<Longrightarrow>
   \<exists>n t. g nd = Some n \<and> idx < num_outputs n \<and> g this = Some t \<and>
     AddUse (g(this \<mapsto> t\<lparr>operands := operands t @ [nd],
                          operands_as_outputs := operands_as_outputs t @ [Output nd idx]\<rparr>))
       nd (Use this (length (operands t)) idx) = Inr g'"
  by (auto simp: AddOperand_def split: option.splits if_splits)

lemma AddOperand_frame:
  assumes inv: "\<And>t x. f (t\<lparr>uses := x\<rparr>) = f t"
               "\<And>t x y. f (t\<lparr>operands := x, operands_as_outputs := y\<rparr>) = f t"
    and ok: "AddOperand g this nd idx = Inr g'"
  shows "map_option f (g' q) = map_option f (g q)"
proof -
  from AddOperand_cases [OF ok] obtain n t where t: "g this = Some t"
    and add: "AddUse (g(this \<mapsto> t\<lparr>operands := operands t @ [nd],
                          operands_as_outputs := operands_as_outputs t @ [Output nd idx]\<rparr>))
       nd (Use this (length (operands t)) idx) = Inr g'"
    by blast
  from AddUse_cases [OF add] t show ?thesis
    by (auto simp: inv split: if_splits)
qed

lemma AddOperand_succeeds:
  "g this = Some t \<Longrightarrow> valid_operand g v \<Longrightarrow>
   \<exists>g'. AddOperand g this (Value_node v) (Value_index v) = Inr g'"
  by (auto simp: AddOperand_def AddUse_def valid_operand_def split: option.splits)

lemma Value_hash_cong:
  "map_option hash (g' (Value_node v)) = map_option hash (g (Value_node v)) \<Longrightarrow>
   Value_hash ext g' v = Value_hash ext g v"
  by (cases "g' (Value_node v)"; cases "g (Value_node v)") (simp_all add: Value_hash_def)

lemma valid_operand_cong:
  "map_option num_outputs (g' (Value_node v)) = map_option num_outputs (g (Value_node v)) \<Longrightarrow>
   valid_operand g' v = valid_operand g v"
  by (cases "g' (Value_node v)"; cases "g (Value_node v)") (simp_all add: valid_operand_def)

lemma valid_operand_hash:
  "valid_operand g v \<Longrightarrow> \<exists>h. Value_hash ext g v = Inr h"
  by (auto simp: valid_operand_def Value_hash_def split: option.splits)

lemma Node_ctor_loop_frame:
  assumes inv: "\<And>t x. f (t\<lparr>uses := x\<rparr>) = f t"
               "\<And>t x y. f (t\<lparr>operands := x, operands_as_outputs := y\<rparr>) = f t"
               "\<And>t x. f (t\<lparr>hash := x\<rparr>) = f t"
  shows "Node_ctor_loop ext g this ops = Inr g' \<Longrightarrow> map_option f (g' q) = map_option f (g q)"
proof (induction ops arbitrary: g)
  case Nil
  then show ?case by simp
next
  case (Cons v ops)
  from Cons.prems obtain g1 h1 t1 where
    g1: "AddOperand g this (Value_node v) (Value_index v) = Inr g1"
    and t1: "g1 this = Some t1"
    and loop: "Node_ctor_loop ext (g1(this \<mapsto> t1\<lparr>hash := HashCombine ext (hash t1) h1\<rparr>)) this ops
                 = Inr g'"
    by (auto split: sum.splits option.splits)
  have "map_option f (g' q)
          = map_option f ((g1(this \<mapsto> t1\<lparr>hash := HashCombine ext (hash t1) h1\<rparr>)) q)"
    by (rule Cons.IH [OF loop])
  also have "\<dots> = map_option f (g1 q)" using t1 by (simp add: inv)
  also have "\<dots> = map_option f (g q)" by (rule AddOperand_frame [OF inv(1,2) g1])
  finally show ?case .
qed

lemma Node_ctor_loop_hash:
  "Node_ctor_loop ext g this ops = Inr g' \<Longrightarrow> g this = Some t \<Longrightarrow>
   map (Value_hash ext g) ops = map Inr hs \<Longrightarrow> \<forall>v\<in>set ops. Value_node v \<noteq> this \<Longrightarrow>
   map_option hash (g' this) = Some (foldl (HashCombine ext) (hash t) hs)"
proof (induction ops arbitrary: g t hs)
  case Nil
  then show ?case by simp
next
  case (Cons v ops)
  from Cons.prems(3) obtain h hs' where hs: "hs = h # hs'" and h: "Value_hash ext g v = Inr h"
    and rest: "map (Value_hash ext g) ops = map Inr hs'"
    by (cases hs) auto
  from Cons.prems(1) obtain g1 h1 t1 where
    g1: "AddOperand g this (Value_node v) (Value_index v) = Inr g1"
    and h1: "Value_hash ext g1 v = Inr h1"
    and t1: "g1 this = Some t1"
    and loop: "Node_ctor_loop ext (g1(this \<mapsto> t1\<lparr>hash := HashCombine ext (hash t1) h1\<rparr>)) this ops
                 = Inr g'"
    by (auto split: sum.splits option.splits)
  have same: "map_option hash (g1 q) = map_option hash (g q)" for q
    by (rule AddOperand_frame [OF _ _ g1]) simp_all
  have vh: "Value_hash ext g1 w = Value_hash ext g w" for w
    by (rule Value_hash_cong) (rule same)
  have t1h: "hash t1 = hash t"
    using same [of this] t1 Cons.prems(2) by simp
  have h1h: "h1 = h" using h1 h vh by simp
  let ?g2 = "g1(this \<mapsto> t1\<lparr>hash := HashCombine ext (hash t1) h1\<rparr>)"
  have nothis: "\<forall>w\<in>set ops. Value_node w \<noteq> this" using Cons.prems(4) by simp
  have vh2: "Value_hash ext ?g2 w = Value_hash ext g w" if "Value_node w \<noteq> this" for w
    using that vh [of w] by (simp add: Value_hash_def)
  have rest2: "map (Value_hash ext ?g2) ops = map Inr hs'"
  proof -
    have "map (Value_hash ext ?g2) ops = map (Value_hash ext g) ops"
      by (rule map_cong [OF refl]) (use nothis vh2 in blast)
    then show ?thesis using rest by simp
  qed
  have t2: "?g2 this = Some (t1\<lparr>hash := HashCombine ext (hash t1) h1\<rparr>)" by simp
  from Cons.IH [OF loop t2 rest2 nothis]
  have "map_option hash (g' this)
               = Some (foldl (HashCombine ext) (HashCombine ext (hash t1) h1) hs')"
    by simp
  then show ?case by (simp add: hs t1h h1h)
qed

lemma Node_ctor_loop_succeeds:
  "g this = Some t \<Longrightarrow> list_all (valid_operand g) ops \<Longrightarrow>
   \<exists>g'. Node_ctor_loop ext g this ops = Inr g'"
proof (induction ops arbitrary: g t)
  case Nil
  then show ?case by simp
next
  case (Cons v ops)
  from Cons.prems have v: "valid_operand g v" and vs: "list_all (valid_operand g) ops" by simp_all
  from AddOperand_succeeds [OF Cons.prems(1) v] obtain g1 where
    g1: "AddOperand g this (Value_node v) (Value_index v) = Inr g1" by blast
  have no: "map_option num_outputs (g1 q) = map_option num_outputs (g q)" for q
    by (rule AddOperand_frame [OF _ _ g1]) simp_all
  have v1: "valid_operand g1 w = valid_operand g w" for w
    by (rule valid_operand_cong) (rule no)
  from no [of this] Cons.prems(1) obtain t1 where t1: "g1 this = Some t1" by auto
  from valid_operand_hash [of g1 v ext] v v1 obtain h1 where h1: "Value_hash ext g1 v = Inr h1"
    by auto
  let ?g2 = "g1(this \<mapsto> t1\<lparr>hash := HashCombine ext (hash t1) h1\<rparr>)"
  have v2: "valid_operand ?g2 w = valid_operand g1 w" for w
    by (rule valid_operand_cong) (use t1 in simp)
  have "list_all (valid_operand ?g2) ops"
    using vs by (simp add: list_all_iff v2 v1)
  moreover have "?g2 this = Some (t1\<lparr>hash := HashCombine ext (hash t1) h1\<rparr>)" by simp
  ultimately have "\<exists>g'. Node_ctor_loop ext ?g2 this ops = Inr g'"
    by (rule Cons.IH [rotated])
  then obtain g' where "Node_ctor_loop ext ?g2 this ops = Inr g'" ..
  then show ?case using g1 h1 t1 by simp
qed

lemma valid_operand_live: "valid_operand g v \<Longrightarrow> g (Value_node v) \<noteq> None"
  by (auto simp: valid_operand_def split: option.splits)

lemma Node_ctor_result:
  assumes fresh: "g this = None" and ops: "list_all (valid_operand g) ops"
    and hs: "map (Value_hash ext g) ops = map Inr hs"
  shows "\<exists>g' t'. Node_ctor ext ts g this k ops shp n_out hash_seed = Inr g' \<and> g' this = Some t'
           \<and> hash t' = Node_full_hash ext k hash_seed hs
           \<and> node_hash t' = HashCombine ext (OpKind_hash ext k) hash_seed
           \<and> shape t' = shp"
proof -
  let ?t0 = "Node_init ext ts k shp n_out (HashCombine ext (OpKind_hash ext k) hash_seed)"
  let ?g0 = "g(this \<mapsto> ?t0)"
  have nothis: "\<forall>v\<in>set ops. Value_node v \<noteq> this"
    using ops fresh valid_operand_live by (fastforce simp: list_all_iff)
  have t0: "?g0 this = Some ?t0" by simp
  have "list_all (valid_operand ?g0) ops"
    using ops nothis by (simp add: list_all_iff valid_operand_def)
  from Node_ctor_loop_succeeds [OF t0 this] obtain g' where
    loop: "Node_ctor_loop ext ?g0 this ops = Inr g'" by blast
  have ctor: "Node_ctor ext ts g this k ops shp n_out hash_seed = Inr g'"
    using fresh loop by (simp add: Node_ctor_def)
  have "map (Value_hash ext ?g0) ops = map (Value_hash ext g) ops"
    by (rule map_cong [OF refl]) (use nothis in \<open>simp add: Value_hash_def\<close>)
  with hs have hs0: "map (Value_hash ext ?g0) ops = map Inr hs" by simp
  from Node_ctor_loop_hash [OF loop t0 hs0 nothis]
  have h: "map_option hash (g' this) = Some (Node_full_hash ext k hash_seed hs)"
    by (simp add: Node_full_hash_def Node_init_def)
  have nh: "map_option node_hash (g' this) = map_option node_hash (?g0 this)"
    by (rule Node_ctor_loop_frame [OF _ _ _ loop]) simp_all
  have sh: "map_option shape (g' this) = map_option shape (?g0 this)"
    by (rule Node_ctor_loop_frame [OF _ _ _ loop]) simp_all
  from h obtain t' where t': "g' this = Some t'" by auto
  show ?thesis
    using ctor t' h nh sh by (simp add: Node_init_def)
qed

lemma operand_hashes_valid:
  "list_all (valid_operand g) ops \<Longrightarrow>
   map (Value_hash ext g) ops = map Inr (map (operand_hash ext g) ops)"
proof (induction ops)
  case Nil
  then show ?case by simp
next
  case (Cons v ops)
  from Cons.prems valid_operand_hash [of g v ext] obtain h where
    "Value_hash ext g v = Inr h" by auto
  then have "Value_hash ext g v = Inr (operand_hash ext g v)" by (simp add: operand_hash_def)
  with Cons show ?case by simp
qed

subsection \<open>Full hashes\<close>







text \<open>
  The two constructors hash differently: with the example primitives, the node built from an
  empty operand list and the leaf built from the same operator kind, shape and seed have
  different full hashes.
\<close>

lemma constructors_hash_differently:
  "\<exists>ga gb ta tb.
     Node_ctor example_externals example_thread_state Map.empty 1 (OpKind 7) []
       (ArrayShape 1 [2]) 1 5 = Inr ga \<and> ga 1 = Some ta
     \<and> Node_ctor_leaf example_externals example_thread_state Map.empty 1 (OpKind 7)
         (ArrayShape 1 [2]) 1 5 = Inr gb \<and> gb 1 = Some tb
     \<and> hash ta = 36 \<and> hash tb = 1121"
  by (simp add: Node_ctor_def Node_ctor_leaf_def Node_init_def GetOpHash_def OpKind_hash_def
      example_externals_def decimal_digit digit_char_def)

text \<open>
  When \<^verbatim>\<open>HashCombine\<close> is injective in its first argument, exchanging two adjacent
  operand hashes \<open>a\<close> and \<open>b\<close> changes the full hash if and only if combining \<open>a\<close> then
  \<open>b\<close> with the fold of the operands before them differs from combining \<open>b\<close> then
  \<open>a\<close>: the operands after them cannot undo the difference.
\<close>

lemma foldl_inj:
  assumes "\<forall>b. inj (\<lambda>a. f a b)"
  shows "foldl f x hs = foldl f y hs \<longleftrightarrow> x = y"
proof (induction hs arbitrary: x y)
  case Nil
  show ?case by simp
next
  case (Cons h hs)
  from assms have "inj (\<lambda>a. f a h)" by blast
  then have "f x h = f y h \<longleftrightarrow> x = y" by (auto dest: injD)
  with Cons.IH [of "f x h" "f y h"] show ?case by simp
qed

lemma Node_full_hash_swap:
  assumes "\<forall>b. inj (\<lambda>a. HashCombine ext a b)"
  shows "Node_full_hash ext k hash_seed (pre @ a # b # post)
           = Node_full_hash ext k hash_seed (pre @ b # a # post)
         \<longleftrightarrow> HashCombine ext (HashCombine ext (Node_full_hash ext k hash_seed pre) a) b
             = HashCombine ext (HashCombine ext (Node_full_hash ext k hash_seed pre) b) a"
  by (simp add: Node_full_hash_def foldl_inj [OF assms])


lemma fact35: "(2::nat) ^ 128 < fact 35"
  by (simp add: fact_numeral)

lemma order_collision_on:
  fixes f :: "'a list \<Rightarrow> hash_t"
  assumes finA: "finite A" and cardA: "card A = 35"
  shows "\<exists>xs ys. set xs = A \<and> distinct xs \<and> set ys = A \<and> distinct ys \<and> xs \<noteq> ys \<and> f xs = f ys"
proof -
  define S where "S = {xs. length xs = 35 \<and> distinct xs \<and> set xs \<subseteq> A}"
  have "35 \<le> card A" using cardA by simp
  from card_lists_distinct_length_eq [OF finA this]
  have "card S = \<Prod>{card A - 35 + 1 .. card A}"
    unfolding S_def .
  then have cardS: "card S = fact 35" unfolding cardA by (simp add: fact_prod)
  have "card (f ` S) \<le> card (UNIV :: hash_t set)"
    by (rule card_mono) simp_all
  also have "\<dots> = 2 ^ 128" by (simp add: card_word)
  also have "\<dots> < card S" using fact35 cardS by simp
  finally have "card (f ` S) < card S" .
  then have "\<not> inj_on f S" by (rule pigeonhole)
  then obtain xs ys where xs: "xs \<in> S" and ys: "ys \<in> S" and ne: "xs \<noteq> ys" and eq: "f xs = f ys"
    unfolding inj_on_def by blast
  have inS: "distinct zs \<and> set zs = A" if "zs \<in> S" for zs
  proof -
    from that have l: "length zs = 35" and d: "distinct zs" and sub: "set zs \<subseteq> A"
      by (simp_all add: S_def)
    have "card (set zs) = card A" using distinct_card [OF d] l cardA by simp
    with finA sub have "set zs = A" by (rule card_subset_eq)
    with d show ?thesis by simp
  qed
  from inS [OF xs] inS [OF ys] ne eq show ?thesis by blast
qed

text \<open>
  This is not a property of the example primitives. Hashes are 128 bits wide and there are
  more orders of 35 operands than hash values: whatever \<^verbatim>\<open>HashCombine\<close>, the operator
  kind and the seed are, any 35 operands with pairwise different hashes that pass the check
  of \<^verbatim>\<open>AddOperand\<close> can be passed to the constructor in two orders that give different
  sequences of operand hashes and the same full hash.
\<close>

lemma Node_ctor_order_collision:
  assumes fresh: "g this = None" and l: "length ops0 = 35"
    and d: "distinct (map (operand_hash ext g) ops0)"
    and valid: "list_all (valid_operand g) ops0"
  shows "\<exists>opsa opsb ga gb ta tb.
           mset opsa = mset ops0 \<and> mset opsb = mset ops0
           \<and> map (operand_hash ext g) opsa \<noteq> map (operand_hash ext g) opsb
           \<and> Node_ctor ext ts g this k opsa shp n_out hash_seed = Inr ga \<and> ga this = Some ta
           \<and> Node_ctor ext ts g this k opsb shp n_out hash_seed = Inr gb \<and> gb this = Some tb
           \<and> hash ta = hash tb"
proof -
  let ?f = "\<lambda>ops. Node_full_hash ext k hash_seed (map (operand_hash ext g) ops)"
  from d have d0: "distinct ops0" and inj: "inj_on (operand_hash ext g) (set ops0)"
    by (simp_all add: distinct_map)
  have "card (set ops0) = 35" using distinct_card [OF d0] l by simp
  from order_collision_on [OF finite_set this, of ?f]
  obtain xs ys where xy: "set xs = set ops0" "distinct xs" "set ys = set ops0" "distinct ys"
    "xs \<noteq> ys" "?f xs = ?f ys" by blast
  have mx: "mset xs = mset ops0" using xy d0 set_eq_iff_mset_eq_distinct [of xs ops0] by simp
  have my: "mset ys = mset ops0" using xy d0 set_eq_iff_mset_eq_distinct [of ys ops0] by simp
  have ne: "map (operand_hash ext g) xs \<noteq> map (operand_hash ext g) ys"
  proof
    assume "map (operand_hash ext g) xs = map (operand_hash ext g) ys"
    moreover from inj xy(1,3) have "inj_on (operand_hash ext g) (set xs \<union> set ys)" by simp
    ultimately have "xs = ys" by (simp add: inj_on_map_eq_map)
    with xy(5) show False by simp
  qed
  have res: "\<exists>g' t'. Node_ctor ext ts g this k zs shp n_out hash_seed = Inr g' \<and> g' this = Some t'
               \<and> hash t' = ?f zs" if "set zs = set ops0" for zs
  proof -
    from that valid have v: "list_all (valid_operand g) zs" by (simp add: list_all_iff)
    from Node_ctor_result [OF fresh v operand_hashes_valid [OF v]] show ?thesis by blast
  qed
  from res [OF xy(1)] obtain ga ta where
    a: "Node_ctor ext ts g this k xs shp n_out hash_seed = Inr ga" "ga this = Some ta"
       "hash ta = ?f xs" by blast
  from res [OF xy(3)] obtain gb tb where
    b: "Node_ctor ext ts g this k ys shp n_out hash_seed = Inr gb" "gb this = Some tb"
       "hash tb = ?f ys" by blast
  from a(3) b(3) xy(6) have "hash ta = hash tb" by simp
  with mx my ne a(1,2) b(1,2) show ?thesis by blast
qed

text \<open>
  C10. The constructor with a shape function forwards to the constructor with an operand
  list, passing the default shape: the node hash and the full hash are established by that
  call, while the declared shape is the default one. Storing the shape that
  \<^verbatim>\<open>GetOpShape\<close> returns changes the field \<^verbatim>\<open>shape_\<close> only, so for every shape cache
  and every shape function the node has the same two hashes.
\<close>

theorem C10_lazy_shape_hash:
  assumes "g this = None" and "list_all (valid_operand g) ops"
  shows "\<exists>g1 t. Node_ctor ext ts g this k ops Shape_default n_out hash_seed = Inr g1
           \<and> g1 this = Some t \<and> shape t = Shape_default
           \<and> (\<forall>shape_cache shape_fn. \<exists>g' c calls.
                 Node_ctor_lazy ext ts shape_cache g this k ops shape_fn n_out hash_seed
                   = Inr (g', c, calls)
                 \<and> g' this = Some (t\<lparr>shape := fst (GetOpShape shape_cache t shape_fn)\<rparr>)
                 \<and> map_option node_hash (g' this) = Some (node_hash t)
                 \<and> map_option hash (g' this) = Some (hash t))"
proof -
  note hs = operand_hashes_valid [OF assms(2), of ext]
  from Node_ctor_result [OF assms hs, of ts k Shape_default n_out hash_seed]
  obtain g1 t where 1: "Node_ctor ext ts g this k ops Shape_default n_out hash_seed = Inr g1"
    "g1 this = Some t" "shape t = Shape_default" by blast
  have "\<exists>g' c calls.
          Node_ctor_lazy ext ts shape_cache g this k ops shape_fn n_out hash_seed
            = Inr (g', c, calls)
          \<and> g' this = Some (t\<lparr>shape := fst (GetOpShape shape_cache t shape_fn)\<rparr>)
          \<and> map_option node_hash (g' this) = Some (node_hash t)
          \<and> map_option hash (g' this) = Some (hash t)" for shape_cache shape_fn
    using 1 by (cases "GetOpShape shape_cache t shape_fn") (simp add: Node_ctor_lazy_def)
  with 1 show ?thesis by blast
qed

theorem C10_lazy_shape_hash_witness:
  "\<exists>g1 t. Node_ctor example_externals example_thread_state example_graph 3 (OpKind 7)
             [Value 1 0, Value 2 0] Shape_default 1 5 = Inr g1
           \<and> g1 3 = Some t \<and> shape t = Shape_default
           \<and> (\<forall>shape_cache shape_fn. \<exists>g' c calls.
                 Node_ctor_lazy example_externals example_thread_state shape_cache example_graph
                   3 (OpKind 7) [Value 1 0, Value 2 0] shape_fn 1 5 = Inr (g', c, calls)
                 \<and> g' 3 = Some (t\<lparr>shape := fst (GetOpShape shape_cache t shape_fn)\<rparr>)
                 \<and> map_option node_hash (g' 3) = Some (node_hash t)
                 \<and> map_option hash (g' 3) = Some (hash t))"
proof -
  have a: "example_graph 3 = None"
    by (simp add: example_graph_def)
  have c: "list_all (valid_operand example_graph) [Value 1 0, Value 2 0]"
    by (simp add: example_graph_def valid_operand_def example_node_def)
  from C10_lazy_shape_hash [where g = example_graph and this = 3, OF a c] show ?thesis .
qed

subsection \<open>Shape cache\<close>

lemma map_of_skip_prefix:
  "h \<notin> fst ` set pre \<Longrightarrow> map_of (pre @ (h, v) # post) h = Some v"
  by (induction pre) auto

lemma GetOpShape_hit:
  "map_of (element_list c) (hash t) = Some v \<Longrightarrow>
   GetOpShape c t shape_fn = (v, c\<lparr>element_list := DoLRU (hash t) v (element_list c)\<rparr>, 0)"
  by (simp add: GetOpShape_def Cache_Get_def)

lemma GetOpShape_miss:
  "map_of (element_list c) (hash t) = None \<Longrightarrow>
   GetOpShape c t shape_fn =
     (shape_fn (),
      c\<lparr>element_list :=
           (if length ((hash t, shape_fn ()) # element_list c) > max_size c
            then butlast ((hash t, shape_fn ()) # element_list c)
            else (hash t, shape_fn ()) # element_list c)\<rparr>, 1)"
  by (simp add: GetOpShape_def Cache_Get_def Cache_Add_def)

lemma GetOpShape_max_size: "max_size (fst (snd (GetOpShape c t shape_fn))) = max_size c"
  by (cases "map_of (element_list c) (hash t)") (simp_all add: GetOpShape_hit GetOpShape_miss)

lemma filter_keys_distinct:
  "distinct (map fst l) \<Longrightarrow> distinct (map fst (filter (\<lambda>(k', v'). k' \<noteq> k) l))"
  by (induction l) auto

lemma GetOpShape_first:
  assumes "GetOpShape c t shape_fn = (v, c', calls)" and "0 < max_size c"
  shows "\<exists>post. element_list c' = (hash t, v) # post"
proof (cases "map_of (element_list c) (hash t)")
  case None
  show ?thesis
  proof (cases "element_list c")
    case Nil
    with None assms show ?thesis by (auto simp: GetOpShape_miss)
  next
    case (Cons a l)
    with None assms show ?thesis by (auto simp: GetOpShape_miss split: if_splits)
  qed
next
  case (Some w)
  with assms show ?thesis by (auto simp: GetOpShape_hit DoLRU_def)
qed

lemma GetOpShape_step:
  assumes l: "element_list c = pre @ (h, v) # post"
    and nh: "h \<notin> fst ` set pre" and d: "distinct (map fst pre)"
    and sub: "fst ` set pre \<subseteq> S" and fin: "finite S"
    and bound: "card (insert (hash t) S - {h}) < max_size c"
  shows "\<exists>pre' post'. element_list (fst (snd (GetOpShape c t shape_fn))) = pre' @ (h, v) # post'
           \<and> h \<notin> fst ` set pre' \<and> distinct (map fst pre')
           \<and> fst ` set pre' \<subseteq> insert (hash t) S - {h}"
proof (cases "hash t = h")
  case True
  have "map_of (element_list c) (hash t) = Some v"
    using l True map_of_skip_prefix [OF nh, of v post] by simp
  then have "element_list (fst (snd (GetOpShape c t shape_fn)))
               = [] @ (h, v) # filter (\<lambda>(k', v'). k' \<noteq> h) (element_list c)"
    using True by (simp add: GetOpShape_hit DoLRU_def)
  moreover have "h \<notin> fst ` set ([] :: (hash_t \<times> Shape) list)"
    and "distinct (map fst ([] :: (hash_t \<times> Shape) list))"
    and "fst ` set ([] :: (hash_t \<times> Shape) list) \<subseteq> insert (hash t) S - {h}"
    by simp_all
  ultimately show ?thesis by blast
next
  case False
  let ?k = "hash t"
  show ?thesis
  proof (cases "map_of (element_list c) ?k")
    case (Some w)
    let ?pre = "(?k, w) # filter (\<lambda>(k', v'). k' \<noteq> ?k) pre"
    have "element_list (fst (snd (GetOpShape c t shape_fn)))
               = ?pre @ (h, v) # filter (\<lambda>(k', v'). k' \<noteq> ?k) post"
      using Some l False by (simp add: GetOpShape_hit DoLRU_def)
    moreover have "h \<notin> fst ` set ?pre" using nh False by auto
    moreover have "distinct (map fst ?pre)"
      using filter_keys_distinct [OF d, of ?k] by auto
    moreover have "fst ` set ?pre \<subseteq> insert ?k S - {h}" using sub nh False by auto
    ultimately show ?thesis by blast
  next
    case None
    let ?pre = "(?k, shape_fn ()) # pre"
    have knot: "?k \<notin> fst ` set pre"
      using None l by (auto simp: map_of_eq_None_iff)
    have hn: "h \<notin> fst ` set ?pre" using nh False by auto
    have dp: "distinct (map fst ?pre)" using d knot by (simp add: image_iff)
    have sp: "fst ` set ?pre \<subseteq> insert ?k S - {h}" using sub nh False by auto
    have "length ?pre = card (fst ` set ?pre)"
      using distinct_card [OF dp] by simp
    also have "\<dots> \<le> card (insert ?k S - {h})"
      by (rule card_mono) (use fin sp in auto)
    finally have len: "length ?pre < max_size c" using bound by simp
    show ?thesis
    proof (cases "length ((?k, shape_fn ()) # element_list c) > max_size c")
      case False
      then have "element_list (fst (snd (GetOpShape c t shape_fn))) = ?pre @ (h, v) # post"
        using None l by (simp add: GetOpShape_miss)
      with hn dp sp show ?thesis by blast
    next
      case True
      with len l have "post \<noteq> []" by auto
      then have "butlast ((?k, shape_fn ()) # element_list c) = ?pre @ (h, v) # butlast post"
        using l by (simp add: butlast_append)
      then have "element_list (fst (snd (GetOpShape c t shape_fn))) = ?pre @ (h, v) # butlast post"
        using None True by (simp add: GetOpShape_miss)
      with hn dp sp show ?thesis by blast
    qed
  qed
qed

lemma GetOpShape_requests_keep:
  assumes "element_list c = pre @ (h, v) # post"
    and "h \<notin> fst ` set pre" and "distinct (map fst pre)"
    and "fst ` set pre \<subseteq> S" and "finite S" and "h \<notin> S"
    and "card (S \<union> (hash ` fst ` set reqs - {h})) < max_size c"
  shows "\<exists>pre' post'. element_list (GetOpShape_requests c reqs) = pre' @ (h, v) # post'
           \<and> h \<notin> fst ` set pre'"
  using assms
proof (induction reqs arbitrary: c pre post S)
  case Nil
  then show ?case by auto
next
  case (Cons r reqs)
  obtain t shape_fn where r: "r = (t, shape_fn)" by (cases r)
  let ?c = "fst (snd (GetOpShape c t shape_fn))"
  let ?S = "insert (hash t) S - {h}"
  have finU: "finite (S \<union> (hash ` fst ` set (r # reqs) - {h}))" using Cons.prems(5) by simp
  have "card ?S \<le> card (S \<union> (hash ` fst ` set (r # reqs) - {h}))"
    by (rule card_mono [OF finU]) (auto simp: r)
  with Cons.prems(7) have b: "card ?S < max_size c" by simp
  from GetOpShape_step [OF Cons.prems(1-5) b, of shape_fn]
  obtain pre' post' where 1: "element_list ?c = pre' @ (h, v) # post'"
    "h \<notin> fst ` set pre'" "distinct (map fst pre')" "fst ` set pre' \<subseteq> ?S" by blast
  have fS: "finite ?S" using Cons.prems(5) by simp
  have hS: "h \<notin> ?S" by simp
  have "?S \<union> (hash ` fst ` set reqs - {h}) = S \<union> (hash ` fst ` set (r # reqs) - {h})"
    using Cons.prems(6) by (auto simp: r)
  with Cons.prems(7) have b2: "card (?S \<union> (hash ` fst ` set reqs - {h})) < max_size ?c"
    by (simp add: GetOpShape_max_size)
  from Cons.IH [OF 1 fS hS b2]
  have "\<exists>pre' post'. element_list (GetOpShape_requests ?c reqs) = pre' @ (h, v) # post'
           \<and> h \<notin> fst ` set pre'" .
  moreover have "GetOpShape_requests c (r # reqs) = GetOpShape_requests ?c reqs"
    by (cases "GetOpShape c t shape_fn") (simp add: r)
  ultimately show ?case by simp
qed

text \<open>
  C5 (as amended). After a request with some full hash, let any requests follow such that
  the number of distinct other hashes among them is below the capacity of the cache. Then a
  request with the same full hash makes no call of its shape function and returns the shape
  that the first request returned, which is the one stored under that hash.
\<close>

theorem C5_cached_shape_reused:
  assumes first: "GetOpShape c0 t shape_fn = (v, c1, calls)"
    and between: "card (hash ` fst ` set reqs - {hash t}) < max_size c0"
    and same: "hash t' = hash t"
  shows "\<exists>c2. GetOpShape (GetOpShape_requests c1 reqs) t' shape_fn' = (v, c2, 0)"
proof -
  from between have pos: "0 < max_size c0" by simp
  from GetOpShape_first [OF first pos] obtain post where
    l: "element_list c1 = [] @ (hash t, v) # post" by auto
  have m: "max_size c1 = max_size c0" using GetOpShape_max_size [of c0 t shape_fn] first by simp
  have "card ({} \<union> (hash ` fst ` set reqs - {hash t})) < max_size c1"
    using between m by simp
  from GetOpShape_requests_keep [OF l _ _ _ _ _ this]
  obtain pre' post' where
    e: "element_list (GetOpShape_requests c1 reqs) = pre' @ (hash t, v) # post'"
    and n: "hash t \<notin> fst ` set pre'" by auto
  have "map_of (element_list (GetOpShape_requests c1 reqs)) (hash t') = Some v"
    unfolding e same by (rule map_of_skip_prefix [OF n])
  from GetOpShape_hit [OF this] show ?thesis by blast
qed

theorem C5_cached_shape_reused_witness:
  "\<exists>c2. GetOpShape
          (GetOpShape_requests
             (fst (snd (GetOpShape (GetShapeCache 2) (example_node 1 Shape_default 1\<lparr>hash := 7\<rparr>)
                          (\<lambda>u. ArrayShape 1 [2]))))
             [(example_node 2 Shape_default 1\<lparr>hash := 8\<rparr>, \<lambda>u. ArrayShape 1 [3])])
          (example_node 3 Shape_default 1\<lparr>hash := 7\<rparr>) (\<lambda>u. ArrayShape 1 [4])
        = (ArrayShape 1 [2], c2, 0)"
proof -
  let ?A = "example_node 1 Shape_default 1\<lparr>hash := 7\<rparr>"
  let ?B = "example_node 2 Shape_default 1\<lparr>hash := 8\<rparr>"
  let ?A' = "example_node 3 Shape_default 1\<lparr>hash := 7\<rparr>"
  let ?f = "\<lambda>u::unit. ArrayShape 1 [2]"
  let ?c1 = "fst (snd (GetOpShape (GetShapeCache 2) ?A ?f))"
  have first: "GetOpShape (GetShapeCache 2) ?A ?f = (ArrayShape 1 [2], ?c1, 1)"
    by (simp add: GetOpShape_def GetShapeCache_def Cache_Get_def Cache_Add_def)
  have between: "card (hash ` fst ` set [(?B, \<lambda>u::unit. ArrayShape 1 [3])] - {hash ?A})
                   < max_size (GetShapeCache 2)"
    by (simp add: GetShapeCache_def)
  have same: "hash ?A' = hash ?A" by simp
  from C5_cached_shape_reused [OF first between same] show ?thesis .
qed

text \<open>
  C5 (as stated). With capacity 1, a request with hash 7, one with hash 8 and one with hash 7
  again: the entry of 7 is evicted by the second request, and both requests with hash 7
  call their shape function.
\<close>

theorem C5_evicted_hash_recomputed:
  "snd (snd (GetOpShape (GetShapeCache 1) (example_node 1 Shape_default 1\<lparr>hash := 7\<rparr>)
               (\<lambda>u. ArrayShape 1 [2]))) = 1
   \<and> snd (snd (GetOpShape
          (GetOpShape_requests
             (fst (snd (GetOpShape (GetShapeCache 1) (example_node 1 Shape_default 1\<lparr>hash := 7\<rparr>)
                          (\<lambda>u. ArrayShape 1 [2]))))
             [(example_node 2 Shape_default 1\<lparr>hash := 8\<rparr>, \<lambda>u. ArrayShape 1 [3])])
          (example_node 3 Shape_default 1\<lparr>hash := 7\<rparr>) (\<lambda>u. ArrayShape 1 [2]))) = 1"
  by (simp add: GetOpShape_def GetShapeCache_def Cache_Get_def Cache_Add_def)

subsection \<open>Use sets and operand edges\<close>

lemma Use_less_irrefl: "\<not> Use_less g u u"
  by (simp add: Use_less_def)

lemma Use_equiv_refl: "Use_equiv g u u"
  by (simp add: Use_equiv_def Use_less_irrefl)

lemma Use_less_cong:
  assumes "\<And>p. map_option op (g' p) = map_option op (g p)"
  shows "Use_less g' = Use_less g"
proof -
  have "Use_op g' u = Use_op g u" for u
    using assms [of "Use_node u"]
    by (cases "g' (Use_node u)"; cases "g (Use_node u)") (simp_all add: Use_op_def)
  then show ?thesis by (intro ext) (simp add: Use_less_def)
qed

lemma set_insert_cong: "Use_less g' = Use_less g \<Longrightarrow> set_insert g' u vs = set_insert g u vs"
  by (induction vs) simp_all

lemma set_erase_cong: "Use_less g' = Use_less g \<Longrightarrow> set_erase g' u vs = set_erase g u vs"
  by (simp add: set_erase_def Use_equiv_def)

lemma set_set_insert: "set (set_insert g u vs) \<subseteq> insert u (set vs)"
  by (induction vs) auto

lemma set_insert_keeps: "set vs \<subseteq> set (set_insert g u vs)"
  by (induction vs) auto

lemma set_insert_equiv: "\<exists>v\<in>set (set_insert g u vs). Use_equiv g u v"
  by (induction vs) (auto simp: Use_equiv_def Use_less_irrefl)

lemma set_set_erase: "set (set_erase g u vs) = {v \<in> set vs. \<not> Use_equiv g u v}"
  by (simp add: set_erase_def)

lemma ReplaceOperand_cases:
  assumes "ReplaceOperand g this slot nd idx = Inr g'"
  shows "\<exists>n t ol g1 n1 g2 t2.
           g nd = Some n \<and> idx < num_outputs n \<and> g this = Some t
           \<and> slot < length (operands_as_outputs t) \<and> slot < length (operands t)
           \<and> g (operands t ! slot) = Some ol
           \<and> g1 = g(operands t ! slot \<mapsto> ol\<lparr>uses :=
                     set_erase g (Use this slot (Output_index (operands_as_outputs t ! slot)))
                       (uses ol)\<rparr>)
           \<and> g1 nd = Some n1
           \<and> g2 = g1(nd \<mapsto> n1\<lparr>uses := set_insert g1 (Use this slot idx) (uses n1)\<rparr>)
           \<and> g2 this = Some t2
           \<and> g' = g2(this \<mapsto> t2\<lparr>operands := (operands t2)[slot := nd],
                                   operands_as_outputs :=
                                     (operands_as_outputs t2)[slot := Output nd idx]\<rparr>)"
proof -
  from assms obtain n where n: "g nd = Some n" "idx < num_outputs n"
    by (auto simp: ReplaceOperand_def split: option.splits if_splits)
  from assms n obtain t where t: "g this = Some t" "slot < length (operands_as_outputs t)"
    "slot < length (operands t)"
    by (auto simp: ReplaceOperand_def split: option.splits if_splits)
  let ?old = "operands t ! slot"
  let ?uo = "Use this slot (Output_index (operands_as_outputs t ! slot))"
  from assms n t obtain g1 where g1: "RemoveUse g ?old ?uo = Inr g1"
    by (auto simp: ReplaceOperand_def split: sum.splits)
  from assms n t g1 obtain g2 where g2: "AddUse g1 nd (Use this slot idx) = Inr g2"
    by (auto simp: ReplaceOperand_def split: sum.splits)
  from assms n t g1 g2 obtain t2 where t2: "g2 this = Some t2"
    and g': "g' = g2(this \<mapsto> t2\<lparr>operands := (operands t2)[slot := nd],
                                   operands_as_outputs :=
                                     (operands_as_outputs t2)[slot := Output nd idx]\<rparr>)"
    by (auto simp: ReplaceOperand_def split: option.splits)
  from RemoveUse_cases [OF g1] obtain ol where ol: "g ?old = Some ol"
    "g1 = g(?old \<mapsto> ol\<lparr>uses := set_erase g ?uo (uses ol)\<rparr>)" by blast
  from AddUse_cases [OF g2] obtain n1 where n1: "g1 nd = Some n1"
    "g2 = g1(nd \<mapsto> n1\<lparr>uses := set_insert g1 (Use this slot idx) (uses n1)\<rparr>)" by blast
  from n t ol n1 t2 g' show ?thesis by blast
qed

lemma ReplaceOperand_effect:
  assumes ok: "ReplaceOperand g this slot nd idx = Inr g'" and t: "g this = Some t"
  shows "map_option uses (g' p) =
           map_option (\<lambda>m. let u1 = (if p = operands t ! slot
                                      then set_erase g (Use this slot
                                             (Output_index (operands_as_outputs t ! slot))) (uses m)
                                      else uses m)
                            in if p = nd then set_insert g (Use this slot idx) u1 else u1) (g p)"
    and "map_option operands (g' p) =
           map_option (\<lambda>m. if p = this then (operands m)[slot := nd] else operands m) (g p)"
    and "map_option operands_as_outputs (g' p) =
           map_option (\<lambda>m. if p = this then (operands_as_outputs m)[slot := Output nd idx]
                            else operands_as_outputs m) (g p)"
    and "(\<And>m x. f (m\<lparr>uses := x\<rparr>) = f m) \<Longrightarrow>
         (\<And>m x y. f (m\<lparr>operands := x, operands_as_outputs := y\<rparr>) = f m) \<Longrightarrow>
         map_option f (g' p) = map_option f (g p)"
proof -
  let ?old = "operands t ! slot"
  let ?uo = "Use this slot (Output_index (operands_as_outputs t ! slot))"
  from ReplaceOperand_cases [OF ok] t obtain ol g1 n1 g2 t2 where
    ol: "g ?old = Some ol"
    and g1: "g1 = g(?old \<mapsto> ol\<lparr>uses := set_erase g ?uo (uses ol)\<rparr>)"
    and n1: "g1 nd = Some n1"
    and g2: "g2 = g1(nd \<mapsto> n1\<lparr>uses := set_insert g1 (Use this slot idx) (uses n1)\<rparr>)"
    and t2: "g2 this = Some t2"
    and g': "g' = g2(this \<mapsto> t2\<lparr>operands := (operands t2)[slot := nd],
                                   operands_as_outputs :=
                                     (operands_as_outputs t2)[slot := Output nd idx]\<rparr>)"
    by auto
  have "map_option op (g1 q) = map_option op (g q)" for q
    using ol by (simp add: g1)
  then have L: "Use_less g1 = Use_less g" by (rule Use_less_cong)
  have ins: "set_insert g1 u vs = set_insert g u vs" for u vs
    by (rule set_insert_cong [OF L])
  have g2': "g2 = g1(nd \<mapsto> n1\<lparr>uses := set_insert g (Use this slot idx) (uses n1)\<rparr>)"
    unfolding g2 ins ..
  show "map_option uses (g' p) =
           map_option (\<lambda>m. let u1 = (if p = operands t ! slot
                                      then set_erase g (Use this slot
                                             (Output_index (operands_as_outputs t ! slot))) (uses m)
                                      else uses m)
                            in if p = nd then set_insert g (Use this slot idx) u1 else u1) (g p)"
    using ol n1 t2 t unfolding g' g2' g1
    by (auto simp: Let_def split: if_splits)
  show "map_option operands (g' p) =
           map_option (\<lambda>m. if p = this then (operands m)[slot := nd] else operands m) (g p)"
    using ol n1 t2 t unfolding g' g2' g1
    by (auto split: if_splits)
  show "map_option operands_as_outputs (g' p) =
           map_option (\<lambda>m. if p = this then (operands_as_outputs m)[slot := Output nd idx]
                            else operands_as_outputs m) (g p)"
    using ol n1 t2 t unfolding g' g2' g1
    by (auto split: if_splits)
  show "map_option f (g' p) = map_option f (g p)"
    if "\<And>m x. f (m\<lparr>uses := x\<rparr>) = f m"
      and "\<And>m x y. f (m\<lparr>operands := x, operands_as_outputs := y\<rparr>) = f m"
    using ol n1 t2 t that unfolding g' g2' g1
    by (auto split: if_splits)
qed

lemma AddOperand_effect:
  assumes ok: "AddOperand g this nd idx = Inr g'" and t: "g this = Some t"
  shows "map_option uses (g' p) =
           map_option (\<lambda>m. if p = nd then set_insert g (Use this (length (operands t)) idx) (uses m)
                            else uses m) (g p)"
    and "map_option operands (g' p) =
           map_option (\<lambda>m. if p = this then operands m @ [nd] else operands m) (g p)"
    and "map_option operands_as_outputs (g' p) =
           map_option (\<lambda>m. if p = this then operands_as_outputs m @ [Output nd idx]
                            else operands_as_outputs m) (g p)"
proof -
  let ?g1 = "g(this \<mapsto> t\<lparr>operands := operands t @ [nd],
                          operands_as_outputs := operands_as_outputs t @ [Output nd idx]\<rparr>)"
  from ok t have add: "AddUse ?g1 nd (Use this (length (operands t)) idx) = Inr g'"
    by (auto simp: AddOperand_def split: option.splits if_splits)
  from AddUse_cases [OF add] obtain n1 where n1: "?g1 nd = Some n1"
    and g': "g' = ?g1(nd \<mapsto> n1\<lparr>uses := set_insert ?g1 (Use this (length (operands t)) idx)
                                           (uses n1)\<rparr>)"
    by blast
  have "map_option op (?g1 q) = map_option op (g q)" for q
    using t by simp
  then have L: "Use_less ?g1 = Use_less g" by (rule Use_less_cong)
  have g'': "g' = ?g1(nd \<mapsto> n1\<lparr>uses := set_insert g (Use this (length (operands t)) idx)
                                           (uses n1)\<rparr>)"
    unfolding g' set_insert_cong [OF L] ..
  show "map_option uses (g' p) =
           map_option (\<lambda>m. if p = nd then set_insert g (Use this (length (operands t)) idx) (uses m)
                            else uses m) (g p)"
    using n1 t unfolding g'' by (auto split: if_splits)
  show "map_option operands (g' p) =
           map_option (\<lambda>m. if p = this then operands m @ [nd] else operands m) (g p)"
    using n1 t unfolding g'' by (auto split: if_splits)
  show "map_option operands_as_outputs (g' p) =
           map_option (\<lambda>m. if p = this then operands_as_outputs m @ [Output nd idx]
                            else operands_as_outputs m) (g p)"
    using n1 t unfolding g'' by (auto split: if_splits)
qed

lemma Use_collapse: "Use (Use_node u) (operand_index u) (Use_index u) = u"
  by (cases u) simp

lemma invariants_cong:
  assumes "\<And>p. map_option uses (g' p) = map_option uses (g p)"
    and "\<And>p. map_option operands (g' p) = map_option operands (g p)"
    and "\<And>p. map_option operands_as_outputs (g' p) = map_option operands_as_outputs (g p)"
    and "uses_consistent g" and "operands_aligned g"
  shows "uses_consistent g'" and "operands_aligned g'"
proof -
  have proj: "\<exists>m. g p = Some m \<and> uses m = uses n \<and> operands m = operands n
               \<and> operands_as_outputs m = operands_as_outputs n" if "g' p = Some n" for p n
    using assms(1) [of p] assms(2) [of p] assms(3) [of p] that by (cases "g p") auto
  have proj': "\<exists>n. g' p = Some n \<and> uses m = uses n \<and> operands m = operands n
               \<and> operands_as_outputs m = operands_as_outputs n" if "g p = Some m" for p m
    using assms(1) [of p] assms(2) [of p] assms(3) [of p] that by (cases "g' p") auto
  show "operands_aligned g'"
    using assms(5) proj unfolding operands_aligned_def by metis
  show "uses_consistent g'"
    unfolding uses_consistent_def
  proof (intro allI impI)
    fix p n u assume a: "g' p = Some n \<and> u \<in> set (uses n)"
    from a proj [of p n] obtain m where m: "g p = Some m" "uses m = uses n" by blast
    with a assms(4) obtain c where c: "g (Use_node u) = Some c"
      "operand_index u < length (operands c)"
      "operand_index u < length (operands_as_outputs c)"
      "operands c ! operand_index u = p"
      "operands_as_outputs c ! operand_index u = Output p (Use_index u)"
      unfolding uses_consistent_def by metis
    from proj' [OF c(1)] obtain c' where "g' (Use_node u) = Some c'"
      "operands c = operands c'" "operands_as_outputs c = operands_as_outputs c'" by blast
    with c show "\<exists>c. g' (Use_node u) = Some c
           \<and> operand_index u < length (operands c)
           \<and> operand_index u < length (operands_as_outputs c)
           \<and> operands c ! operand_index u = p
           \<and> operands_as_outputs c ! operand_index u = Output p (Use_index u)" by simp
  qed
qed

lemma AddOperand_invariants:
  assumes ok: "AddOperand g this nd idx = Inr g'"
    and uc: "uses_consistent g" and al: "operands_aligned g"
  shows "uses_consistent g'" and "operands_aligned g'"
proof -
  from ok obtain t where t: "g this = Some t"
    by (auto simp: AddOperand_def split: option.splits if_splits)
  note eff = AddOperand_effect [OF ok t]
  have lt: "length (operands t) = length (operands_as_outputs t)"
    using al t unfolding operands_aligned_def by blast
  have edges: "\<exists>m. g p = Some m
                 \<and> operands n = (if p = this then operands m @ [nd] else operands m)
                 \<and> operands_as_outputs n = (if p = this then operands_as_outputs m @ [Output nd idx]
                                             else operands_as_outputs m)
                 \<and> uses n = (if p = nd then set_insert g (Use this (length (operands t)) idx) (uses m)
                             else uses m)"
    if "g' p = Some n" for p n
    using eff(1) [of p] eff(2) [of p] eff(3) [of p] that by (cases "g p") auto
  have live: "\<exists>n. g' p = Some n" if "g p = Some m" for p m
    using eff(2) [of p] that by (cases "g' p") auto
  show "operands_aligned g'"
    unfolding operands_aligned_def
  proof (intro allI impI)
    fix p n assume "g' p = Some n"
    from edges [OF this] obtain m where m: "g p = Some m"
      "operands n = (if p = this then operands m @ [nd] else operands m)"
      "operands_as_outputs n = (if p = this then operands_as_outputs m @ [Output nd idx]
                                else operands_as_outputs m)" by blast
    from al m(1) have "length (operands m) = length (operands_as_outputs m)"
      unfolding operands_aligned_def by blast
    with m show "length (operands n) = length (operands_as_outputs n)" by simp
  qed
  show "uses_consistent g'"
    unfolding uses_consistent_def
  proof (intro allI impI)
    fix p n u assume a: "g' p = Some n \<and> u \<in> set (uses n)"
    from a edges [of p n] obtain m where m: "g p = Some m"
      and um: "uses n = (if p = nd then set_insert g (Use this (length (operands t)) idx) (uses m)
                         else uses m)" by blast
    from a um set_set_insert [of g "Use this (length (operands t)) idx" "uses m"]
    consider (new) "p = nd" "u = Use this (length (operands t)) idx" | (old) "u \<in> set (uses m)"
      by (auto split: if_splits)
    then show "\<exists>c. g' (Use_node u) = Some c
           \<and> operand_index u < length (operands c)
           \<and> operand_index u < length (operands_as_outputs c)
           \<and> operands c ! operand_index u = p
           \<and> operands_as_outputs c ! operand_index u = Output p (Use_index u)"
    proof cases
      case new
      from live [OF t] obtain t' where t': "g' this = Some t'" by blast
      from edges [OF t'] t have "operands t' = operands t @ [nd]"
        "operands_as_outputs t' = operands_as_outputs t @ [Output nd idx]" by auto
      with new t' lt show ?thesis by (simp add: nth_append)
    next
      case old
      with m uc obtain c where c: "g (Use_node u) = Some c"
        "operand_index u < length (operands c)"
        "operand_index u < length (operands_as_outputs c)"
        "operands c ! operand_index u = p"
        "operands_as_outputs c ! operand_index u = Output p (Use_index u)"
        unfolding uses_consistent_def by metis
      from live [OF c(1)] obtain c' where c': "g' (Use_node u) = Some c'" by blast
      from edges [OF c'] c(1) have
        "operands c' = (if Use_node u = this then operands c @ [nd] else operands c)"
        "operands_as_outputs c' = (if Use_node u = this then operands_as_outputs c @ [Output nd idx]
                                   else operands_as_outputs c)" by auto
      with c c' show ?thesis by (simp add: nth_append)
    qed
  qed
qed

lemma empty_invariants: "uses_consistent Map.empty" "operands_aligned Map.empty"
  by (simp_all add: uses_consistent_def operands_aligned_def)

lemma fresh_node_invariants:
  assumes fresh: "g this = None" and e: "operands t = []" "operands_as_outputs t = []" "uses t = []"
    and uc: "uses_consistent g" and al: "operands_aligned g"
  shows "uses_consistent (g(this \<mapsto> t))" and "operands_aligned (g(this \<mapsto> t))"
proof -
  show "operands_aligned (g(this \<mapsto> t))"
    using al e unfolding operands_aligned_def by auto
  show "uses_consistent (g(this \<mapsto> t))"
    unfolding uses_consistent_def
  proof (intro allI impI)
    fix p n u assume a: "(g(this \<mapsto> t)) p = Some n \<and> u \<in> set (uses n)"
    with e have p: "p \<noteq> this" "g p = Some n" "u \<in> set (uses n)" by (auto split: if_splits)
    with uc obtain c where c: "g (Use_node u) = Some c"
      "operand_index u < length (operands c)"
      "operand_index u < length (operands_as_outputs c)"
      "operands c ! operand_index u = p"
      "operands_as_outputs c ! operand_index u = Output p (Use_index u)"
      unfolding uses_consistent_def by metis
    from c(1) fresh have "Use_node u \<noteq> this" by auto
    with c show "\<exists>c. (g(this \<mapsto> t)) (Use_node u) = Some c
           \<and> operand_index u < length (operands c)
           \<and> operand_index u < length (operands_as_outputs c)
           \<and> operands c ! operand_index u = p
           \<and> operands_as_outputs c ! operand_index u = Output p (Use_index u)" by simp
  qed
qed

lemma Node_ctor_loop_invariants:
  "Node_ctor_loop ext g this ops = Inr g' \<Longrightarrow> uses_consistent g \<Longrightarrow> operands_aligned g \<Longrightarrow>
   uses_consistent g' \<and> operands_aligned g'"
proof (induction ops arbitrary: g)
  case Nil
  then show ?case by simp
next
  case (Cons v ops)
  from Cons.prems(1) obtain g1 h1 t1 where
    g1: "AddOperand g this (Value_node v) (Value_index v) = Inr g1"
    and t1: "g1 this = Some t1"
    and loop: "Node_ctor_loop ext (g1(this \<mapsto> t1\<lparr>hash := HashCombine ext (hash t1) h1\<rparr>)) this ops
                 = Inr g'"
    by (auto split: sum.splits option.splits)
  let ?g2 = "g1(this \<mapsto> t1\<lparr>hash := HashCombine ext (hash t1) h1\<rparr>)"
  note i1 = AddOperand_invariants [OF g1 Cons.prems(2,3)]
  have "uses_consistent ?g2" and "operands_aligned ?g2"
    by (rule invariants_cong [OF _ _ _ i1]; use t1 in simp)+
  then show ?case by (rule Cons.IH [OF loop])
qed

lemma Node_ctor_invariants:
  assumes "Node_ctor ext ts g this k ops shp n_out hash_seed = Inr g'"
    and "uses_consistent g" and "operands_aligned g"
  shows "uses_consistent g'" and "operands_aligned g'"
proof -
  let ?t0 = "Node_init ext ts k shp n_out (HashCombine ext (OpKind_hash ext k) hash_seed)"
  from assms(1) have fresh: "g this = None"
    and loop: "Node_ctor_loop ext (g(this \<mapsto> ?t0)) this ops = Inr g'"
    by (auto simp: Node_ctor_def split: if_splits)
  have "uses_consistent (g(this \<mapsto> ?t0))" "operands_aligned (g(this \<mapsto> ?t0))"
    by (rule fresh_node_invariants [OF fresh _ _ _ assms(2,3)]; simp add: Node_init_def)+
  then have "uses_consistent g' \<and> operands_aligned g'"
    by (rule Node_ctor_loop_invariants [OF loop])
  then show "uses_consistent g'" "operands_aligned g'"
    by simp_all
qed

lemma Node_ctor_leaf_invariants:
  assumes "Node_ctor_leaf ext ts g this k shp n_out hash_seed = Inr g'"
    and "uses_consistent g" and "operands_aligned g"
  shows "uses_consistent g'" and "operands_aligned g'"
proof -
  let ?t0 = "Node_init ext ts k shp n_out (GetOpHash ext k shp hash_seed)"
  from assms(1) have fresh: "g this = None" and g': "g' = g(this \<mapsto> ?t0)"
    by (auto simp: Node_ctor_leaf_def split: if_splits)
  show "uses_consistent g'" "operands_aligned g'"
    unfolding g' by (rule fresh_node_invariants [OF fresh _ _ _ assms(2,3)]; simp add: Node_init_def)+
qed

subsection \<open>Destruction\<close>

lemma Use_equiv_cong: "Use_less g' = Use_less g \<Longrightarrow> Use_equiv g' = Use_equiv g"
  by (intro ext) (simp add: Use_equiv_def)

lemma Node_dtor_loop_effect:
  "Node_dtor_loop g this t js = Inr g' \<Longrightarrow>
   map_option op (g' p) = map_option op (g p)
   \<and> map_option operands (g' p) = map_option operands (g p)
   \<and> map_option operands_as_outputs (g' p) = map_option operands_as_outputs (g p)
   \<and> map_option (\<lambda>n. set (uses n)) (g' p) =
       map_option (\<lambda>m. {u \<in> set (uses m). \<forall>i\<in>set js. operands t ! i = p \<longrightarrow>
                          \<not> Use_equiv g (Use this i (Output_index (operands_as_outputs t ! i))) u})
         (g p)"
proof (induction js arbitrary: g)
  case Nil
  then show ?case by (cases "g p") simp_all
next
  case (Cons i js)
  let ?u = "Use this i (Output_index (operands_as_outputs t ! i))"
  from Cons.prems obtain g1 where i: "i < length (operands t)"
    and g1: "RemoveUse g (operands t ! i) ?u = Inr g1"
    and loop: "Node_dtor_loop g1 this t js = Inr g'"
    by (auto split: if_splits sum.splits)
  from RemoveUse_cases [OF g1] obtain ol where ol: "g (operands t ! i) = Some ol"
    and g1e: "g1 = g(operands t ! i \<mapsto> ol\<lparr>uses := set_erase g ?u (uses ol)\<rparr>)" by blast
  have "map_option op (g1 q) = map_option op (g q)" for q
    using ol by (simp add: g1e)
  then have L: "Use_equiv g1 = Use_equiv g" by (intro Use_equiv_cong Use_less_cong)
  note IH = Cons.IH [OF loop, unfolded L]
  show ?case
  proof (cases "p = operands t ! i")
    case True
    with IH ol show ?thesis by (auto simp: g1e set_set_erase)
  next
    case False
    with IH show ?thesis by (cases "g p") (auto simp: g1e)
  qed
qed

lemma Node_dtor_loop_succeeds:
  "\<forall>i\<in>set js. i < length (operands t) \<and> g (operands t ! i) \<noteq> None \<Longrightarrow>
   \<exists>g'. Node_dtor_loop g this t js = Inr g'"
proof (induction js arbitrary: g)
  case Nil
  then show ?case by simp
next
  case (Cons i js)
  let ?u = "Use this i (Output_index (operands_as_outputs t ! i))"
  from Cons.prems obtain ol where i: "i < length (operands t)" and ol: "g (operands t ! i) = Some ol"
    by auto
  let ?g1 = "g(operands t ! i \<mapsto> ol\<lparr>uses := set_erase g ?u (uses ol)\<rparr>)"
  have g1: "RemoveUse g (operands t ! i) ?u = Inr ?g1"
    using ol by (simp add: RemoveUse_def)
  have "\<forall>j\<in>set js. j < length (operands t) \<and> ?g1 (operands t ! j) \<noteq> None"
    using Cons.prems by simp
  from Cons.IH [OF this] obtain g' where "Node_dtor_loop ?g1 this t js = Inr g'" by blast
  with i g1 show ?case by simp
qed

lemma Node_dtor_no_back_reference:
  assumes uc: "uses_consistent g" and al: "operands_aligned g"
    and t: "g this = Some t" and live: "list_all (\<lambda>q. g q \<noteq> None) (operands t)"
  shows "\<exists>g'. Node_dtor g this = Inr g'
           \<and> (\<forall>p n u. g' p = Some n \<and> u \<in> set (uses n) \<longrightarrow> Use_node u \<noteq> this)"
proof -
  let ?js = "[0 ..< length (operands_as_outputs t)]"
  have lt: "length (operands t) = length (operands_as_outputs t)"
    using al t unfolding operands_aligned_def by blast
  have "\<forall>i\<in>set ?js. i < length (operands t) \<and> g (operands t ! i) \<noteq> None"
    using live lt by (simp add: list_all_length)
  from Node_dtor_loop_succeeds [OF this] obtain g1 where
    loop: "Node_dtor_loop g this t ?js = Inr g1" by blast
  have dtor: "Node_dtor g this = Inr (g1(this := None))"
    using t loop by (simp add: Node_dtor_def)
  have "Use_node u \<noteq> this" if p: "(g1(this := None)) p = Some n" and u: "u \<in> set (uses n)" for p n u
  proof
    assume c: "Use_node u = this"
    from p have g1p: "g1 p = Some n" by (auto split: if_splits)
    from Node_dtor_loop_effect [OF loop, of p] g1p obtain m where m: "g p = Some m"
      and s: "set (uses n) = {u \<in> set (uses m). \<forall>i\<in>set ?js. operands t ! i = p \<longrightarrow>
                          \<not> Use_equiv g (Use this i (Output_index (operands_as_outputs t ! i))) u}"
      by (cases "g p") auto
    from u s have um: "u \<in> set (uses m)"
      and ne: "\<forall>i\<in>set ?js. operands t ! i = p \<longrightarrow>
                 \<not> Use_equiv g (Use this i (Output_index (operands_as_outputs t ! i))) u"
      by auto
    from uc m um c t have e: "operand_index u < length (operands_as_outputs t)"
      "operands t ! operand_index u = p"
      "operands_as_outputs t ! operand_index u = Output p (Use_index u)"
      unfolding uses_consistent_def by fastforce+
    from e(3) have "Use this (operand_index u)
                      (Output_index (operands_as_outputs t ! operand_index u)) = u"
      using c Use_collapse [of u] by simp
    with ne e(1,2) have "\<not> Use_equiv g u u" by fastforce
    then show False by (simp add: Use_equiv_refl)
  qed
  with dtor show ?thesis by blast
qed

lemma Node_dtor_loop_exact:
  "Node_dtor_loop g this t js = Inr g' \<Longrightarrow>
   g' p = map_option
            (\<lambda>m. m\<lparr>uses := filter (\<lambda>u. \<forall>i\<in>set js. operands t ! i = p \<longrightarrow>
                       \<not> Use_equiv g (Use this i (Output_index (operands_as_outputs t ! i))) u)
                     (uses m)\<rparr>) (g p)"
proof (induction js arbitrary: g)
  case Nil
  then show ?case by (cases "g p") simp_all
next
  case (Cons i js)
  let ?u = "Use this i (Output_index (operands_as_outputs t ! i))"
  from Cons.prems obtain g1 where i: "i < length (operands t)"
    and g1: "RemoveUse g (operands t ! i) ?u = Inr g1"
    and loop: "Node_dtor_loop g1 this t js = Inr g'"
    by (auto split: if_splits sum.splits)
  from RemoveUse_cases [OF g1] obtain ol where ol: "g (operands t ! i) = Some ol"
    and g1e: "g1 = g(operands t ! i \<mapsto> ol\<lparr>uses := set_erase g ?u (uses ol)\<rparr>)" by blast
  have "map_option op (g1 q) = map_option op (g q)" for q
    using ol by (simp add: g1e)
  then have L: "Use_equiv g1 = Use_equiv g" by (intro Use_equiv_cong Use_less_cong)
  note IH = Cons.IH [OF loop, unfolded L]
  show ?case
  proof (cases "p = operands t ! i")
    case True
    have "filter (\<lambda>u. \<forall>j\<in>set js. operands t ! j = p \<longrightarrow>
                       \<not> Use_equiv g (Use this j (Output_index (operands_as_outputs t ! j))) u)
            (set_erase g ?u (uses ol))
          = filter (\<lambda>u. \<forall>j\<in>set (i # js). operands t ! j = p \<longrightarrow>
                       \<not> Use_equiv g (Use this j (Output_index (operands_as_outputs t ! j))) u)
              (uses ol)"
      using True by (auto simp: set_erase_def intro: filter_cong)
    with IH ol True show ?thesis by (simp add: g1e)
  next
    case False
    with IH show ?thesis by (cases "g p") (auto simp: g1e intro: filter_cong)
  qed
qed

text \<open>
  C3. In a heap whose use sets are consistent with the operand edges (every reachable heap
  is, lemma \<open>reachable_invariants\<close>), destroying a live node \<open>N\<close> whose operands are live
  succeeds. Afterwards \<open>N\<close> is gone. Every other node is the node it was, except that its
  use set has lost the uses equivalent to \<open>(N, i, index of operand i)\<close> for the slots
  \<open>i\<close> of \<open>N\<close> that point at it: the nodes that are not operands of \<open>N\<close> are untouched.
  So every operand of \<open>N\<close> other than \<open>N\<close> itself is still live, and holds no use whose
  consumer is \<open>N\<close>; nor does any other node.
\<close>

theorem C3_dtor_removes_back_references:
  assumes uc: "uses_consistent g" and al: "operands_aligned g"
    and t: "g this = Some t" and live: "list_all (\<lambda>q. g q \<noteq> None) (operands t)"
  shows "\<exists>g'. Node_dtor g this = Inr g'
           \<and> g' this = None
           \<and> (\<forall>p. p \<noteq> this \<longrightarrow>
                 g' p = map_option
                   (\<lambda>m. m\<lparr>uses := filter (\<lambda>u. \<forall>i<length (operands t). operands t ! i = p \<longrightarrow>
                              \<not> Use_equiv g (Use this i
                                   (Output_index (operands_as_outputs t ! i))) u)
                            (uses m)\<rparr>) (g p))
           \<and> list_all (\<lambda>q. q \<noteq> this \<longrightarrow>
                 (\<exists>n. g' q = Some n \<and> list_all (\<lambda>u. Use_node u \<noteq> this) (uses n))) (operands t)
           \<and> (\<forall>p n u. g' p = Some n \<and> u \<in> set (uses n) \<longrightarrow> Use_node u \<noteq> this)"
proof -
  let ?js = "[0 ..< length (operands_as_outputs t)]"
  have lt: "length (operands t) = length (operands_as_outputs t)"
    using al t unfolding operands_aligned_def by blast
  from Node_dtor_no_back_reference [OF assms] obtain g' where
    d: "Node_dtor g this = Inr g'"
    and nb: "\<forall>p n u. g' p = Some n \<and> u \<in> set (uses n) \<longrightarrow> Use_node u \<noteq> this" by blast
  from d t obtain g1 where loop: "Node_dtor_loop g this t ?js = Inr g1"
    and g': "g' = g1(this := None)"
    by (auto simp: Node_dtor_def split: sum.splits)
  have ex: "g' p = map_option
                   (\<lambda>m. m\<lparr>uses := filter (\<lambda>u. \<forall>i<length (operands t). operands t ! i = p \<longrightarrow>
                              \<not> Use_equiv g (Use this i
                                   (Output_index (operands_as_outputs t ! i))) u)
                            (uses m)\<rparr>) (g p)" if "p \<noteq> this" for p
  proof -
    have "(\<forall>i\<in>set ?js. Q i) = (\<forall>i<length (operands t). Q i)" for Q
      by (auto simp: lt)
    with Node_dtor_loop_exact [OF loop, of p] that show ?thesis by (simp add: g')
  qed
  have "\<exists>n. g' q = Some n \<and> list_all (\<lambda>u. Use_node u \<noteq> this) (uses n)"
    if q: "q \<in> set (operands t)" "q \<noteq> this" for q
  proof -
    from live q(1) obtain m where "g q = Some m" by (auto simp: list_all_iff)
    with ex [OF q(2)] obtain n where n: "g' q = Some n" by auto
    with nb have "list_all (\<lambda>u. Use_node u \<noteq> this) (uses n)" by (auto simp: list_all_iff)
    with n show ?thesis by blast
  qed
  then have "list_all (\<lambda>q. q \<noteq> this \<longrightarrow>
                 (\<exists>n. g' q = Some n \<and> list_all (\<lambda>u. Use_node u \<noteq> this) (uses n))) (operands t)"
    by (simp add: list_all_iff)
  moreover have "g' this = None" by (simp add: g')
  ultimately show ?thesis using d ex nb by blast
qed

lemmas eval_defs = two_consumers_def separate_consumers_def then_do_def Node_ctor_def Node_ctor_leaf_def Node_init_def
  AddOperand_def AddUse_def RemoveUse_def Value_hash_def GetOpHash_def OpKind_hash_def
  example_externals_def example_thread_state_def ReplaceOperand_def ReplaceAllUsesWith_def
  Node_dtor_def Use_less_def Use_op_def Use_equiv_def set_erase_def

lemma then_do_Inr: "then_do r f = Inr y \<Longrightarrow> \<exists>x. r = Inr x \<and> f x = Inr y"
  by (cases r) (simp_all add: then_do_def)

lemma two_consumers_invariants:
  assumes "two_consumers = Inr g"
  shows "uses_consistent g" and "operands_aligned g"
proof -
  from assms [unfolded two_consumers_def] obtain g1 g2 g3 where
    1: "Node_ctor_leaf example_externals example_thread_state Map.empty 1 (OpKind 1)
          (ArrayShape 1 [2]) 1 0 = Inr g1"
    and 2: "Node_ctor_leaf example_externals example_thread_state g1 2 (OpKind 2)
          (ArrayShape 1 [2]) 1 0 = Inr g2"
    and 3: "Node_ctor example_externals example_thread_state g2 3 (OpKind 3) [Value 1 0]
          (ArrayShape 1 [2]) 1 0 = Inr g3"
    and 4: "Node_ctor example_externals example_thread_state g3 4 (OpKind 3) [Value 1 0]
          (ArrayShape 1 [2]) 1 0 = Inr g"
    by (blast dest!: then_do_Inr)
  note i1 = Node_ctor_leaf_invariants [OF 1 empty_invariants]
  note i2 = Node_ctor_leaf_invariants [OF 2 i1]
  note i3 = Node_ctor_invariants [OF 3 i2]
  show "uses_consistent g" and "operands_aligned g"
    by (rule Node_ctor_invariants [OF 4 i3])+
qed

lemma two_consumers_value:
  "\<exists>g. two_consumers = Inr g
      \<and> map_option operands (g 3) = Some [1] \<and> map_option operands (g 4) = Some [1]
      \<and> map_option uses (g 1) = Some [Use 3 0 0] \<and> map_option uses (g 2) = Some []
      \<and> g 1 \<noteq> None \<and> g 2 \<noteq> None"
  by (simp add: eval_defs)

lemma separate_consumers_invariants:
  assumes "separate_consumers = Inr g"
  shows "uses_consistent g" and "operands_aligned g"
proof -
  from assms [unfolded separate_consumers_def] obtain g1 g2 g3 where
    1: "Node_ctor_leaf example_externals example_thread_state Map.empty 1 (OpKind 1)
          (ArrayShape 1 [2]) 1 0 = Inr g1"
    and 2: "Node_ctor_leaf example_externals example_thread_state g1 2 (OpKind 2)
          (ArrayShape 1 [2]) 1 0 = Inr g2"
    and 3: "Node_ctor example_externals example_thread_state g2 3 (OpKind 3) [Value 1 0]
          (ArrayShape 1 [2]) 1 0 = Inr g3"
    and 4: "Node_ctor example_externals example_thread_state g3 4 (OpKind 3) [Value 2 0]
          (ArrayShape 1 [2]) 1 0 = Inr g"
    by (blast dest!: then_do_Inr)
  note i1 = Node_ctor_leaf_invariants [OF 1 empty_invariants]
  note i2 = Node_ctor_leaf_invariants [OF 2 i1]
  note i3 = Node_ctor_invariants [OF 3 i2]
  show "uses_consistent g" and "operands_aligned g"
    by (rule Node_ctor_invariants [OF 4 i3])+
qed

lemma separate_consumers_dtor_value:
  "\<exists>g g'. separate_consumers = Inr g
      \<and> map_option operands (g 4) = Some [2] \<and> g 2 \<noteq> None
      \<and> map_option uses (g 1) = Some [Use 3 0 0] \<and> map_option uses (g 2) = Some [Use 4 0 0]
      \<and> Node_dtor g 4 = Inr g'
      \<and> g' 4 = None \<and> g' 3 = g 3
      \<and> map_option uses (g' 1) = Some [Use 3 0 0] \<and> map_option uses (g' 2) = Some []"
  by (simp add: eval_defs)

theorem C3_dtor_witness:
  "\<exists>g g'. separate_consumers = Inr g
     \<and> map_option uses (g 1) = Some [Use 3 0 0] \<and> map_option uses (g 2) = Some [Use 4 0 0]
     \<and> Node_dtor g 4 = Inr g'
     \<and> g' 4 = None \<and> g' 3 = g 3
     \<and> map_option uses (g' 1) = Some [Use 3 0 0] \<and> map_option uses (g' 2) = Some []
     \<and> (\<forall>p n u. g' p = Some n \<and> u \<in> set (uses n) \<longrightarrow> Use_node u \<noteq> 4)"
proof -
  from separate_consumers_dtor_value obtain g g' t where g: "separate_consumers = Inr g"
    and t: "g 4 = Some t" and o: "operands t = [2]" and l: "g 2 \<noteq> None"
    and before: "map_option uses (g 1) = Some [Use 3 0 0]"
      "map_option uses (g 2) = Some [Use 4 0 0]"
    and d: "Node_dtor g 4 = Inr g'"
    and after: "g' 4 = None" "g' 3 = g 3" "map_option uses (g' 1) = Some [Use 3 0 0]"
      "map_option uses (g' 2) = Some []"
    by auto
  have live: "list_all (\<lambda>q. g q \<noteq> None) (operands t)" using o l by simp
  from C3_dtor_removes_back_references [OF separate_consumers_invariants [OF g] t live] d
  have "\<forall>p n u. g' p = Some n \<and> u \<in> set (uses n) \<longrightarrow> Use_node u \<noteq> 4" by auto
  with g before d after show ?thesis by blast
qed

subsection \<open>Operand replacement\<close>

lemma ReplaceOperand_succeeds:
  assumes "g this = Some t" and "g nd = Some n" and "idx < num_outputs n"
    and "slot < length (operands_as_outputs t)" and "slot < length (operands t)"
    and "g (operands t ! slot) \<noteq> None"
  shows "\<exists>g'. ReplaceOperand g this slot nd idx = Inr g'"
  using assms
  by (auto simp: ReplaceOperand_def RemoveUse_def AddUse_def split: option.splits)

lemma ReplaceOperand_summary:
  assumes ok: "ReplaceOperand g this slot nd idx = Inr g'" and t: "g this = Some t"
  shows "\<exists>t'. g' this = Some t' \<and> operands t' = (operands t)[slot := nd]
           \<and> operands_as_outputs t' = (operands_as_outputs t)[slot := Output nd idx]
           \<and> node_hash t' = node_hash t \<and> hash t' = hash t \<and> shape t' = shape t"
    and "\<exists>n'. g' nd = Some n' \<and> (\<exists>u\<in>set (uses n'). Use_equiv g (Use this slot idx) u)"
    and "operands t ! slot \<noteq> nd \<Longrightarrow>
         \<exists>ol. g' (operands t ! slot) = Some ol
           \<and> (\<forall>u\<in>set (uses ol). \<not> Use_equiv g (Use this slot
                                       (Output_index (operands_as_outputs t ! slot))) u)"
proof -
  note eff = ReplaceOperand_effect [OF ok t]
  from eff(2) [of this] t obtain t' where t': "g' this = Some t'" by (cases "g' this") auto
  have "node_hash t' = node_hash t" "hash t' = hash t" "shape t' = shape t"
    using eff(4) [of node_hash this] eff(4) [of hash this] eff(4) [of shape this] t t'
    by simp_all
  moreover have "operands t' = (operands t)[slot := nd]"
    "operands_as_outputs t' = (operands_as_outputs t)[slot := Output nd idx]"
    using eff(2) [of this] eff(3) [of this] t t' by simp_all
  ultimately show "\<exists>t'. g' this = Some t' \<and> operands t' = (operands t)[slot := nd]
           \<and> operands_as_outputs t' = (operands_as_outputs t)[slot := Output nd idx]
           \<and> node_hash t' = node_hash t \<and> hash t' = hash t \<and> shape t' = shape t"
    using t' by simp
  from ReplaceOperand_cases [OF ok] obtain n where n: "g nd = Some n" by blast
  with eff(1) [of nd] obtain n' where n': "g' nd = Some n'"
    and un: "uses n' = set_insert g (Use this slot idx)
               (if nd = operands t ! slot
                then set_erase g (Use this slot (Output_index (operands_as_outputs t ! slot)))
                       (uses n)
                else uses n)"
    by (cases "g' nd") (auto simp: Let_def)
  from set_insert_equiv [of g "Use this slot idx"] un n'
  show "\<exists>n'. g' nd = Some n' \<and> (\<exists>u\<in>set (uses n'). Use_equiv g (Use this slot idx) u)"
    by auto
  show "\<exists>ol. g' (operands t ! slot) = Some ol
           \<and> (\<forall>u\<in>set (uses ol). \<not> Use_equiv g (Use this slot
                                       (Output_index (operands_as_outputs t ! slot))) u)"
    if ne: "operands t ! slot \<noteq> nd"
  proof -
    from ReplaceOperand_cases [OF ok] t obtain ol where ol: "g (operands t ! slot) = Some ol"
      by auto
    with eff(1) [of "operands t ! slot"] ne obtain ol' where
      "g' (operands t ! slot) = Some ol'"
      "uses ol' = set_erase g (Use this slot (Output_index (operands_as_outputs t ! slot)))
                    (uses ol)"
      by (cases "g' (operands t ! slot)") (auto simp: Let_def)
    then show ?thesis by (simp add: set_set_erase)
  qed
qed

lemma ReplaceOperand_invariants:
  assumes ok: "ReplaceOperand g this slot nd idx = Inr g'"
    and uc: "uses_consistent g" and al: "operands_aligned g"
  shows "uses_consistent g'" and "operands_aligned g'"
proof -
  from ReplaceOperand_cases [OF ok] obtain t where t: "g this = Some t"
    and sl: "slot < length (operands_as_outputs t)" "slot < length (operands t)" by blast
  note eff = ReplaceOperand_effect [OF ok t]
  let ?old = "operands t ! slot"
  let ?uo = "Use this slot (Output_index (operands_as_outputs t ! slot))"
  let ?un = "Use this slot idx"
  have edges: "\<exists>m. g p = Some m
                 \<and> operands n = (if p = this then (operands m)[slot := nd] else operands m)
                 \<and> operands_as_outputs n = (if p = this
                      then (operands_as_outputs m)[slot := Output nd idx]
                      else operands_as_outputs m)
                 \<and> uses n = (let u1 = (if p = ?old then set_erase g ?uo (uses m) else uses m)
                             in if p = nd then set_insert g ?un u1 else u1)"
    if "g' p = Some n" for p n
    using eff(1) [of p] eff(2) [of p] eff(3) [of p] that by (cases "g p") auto
  have live: "\<exists>n. g' p = Some n" if "g p = Some m" for p m
    using eff(2) [of p] that by (cases "g' p") auto
  show "operands_aligned g'"
    unfolding operands_aligned_def
  proof (intro allI impI)
    fix p n assume "g' p = Some n"
    from edges [OF this] obtain m where m: "g p = Some m"
      "operands n = (if p = this then (operands m)[slot := nd] else operands m)"
      "operands_as_outputs n = (if p = this then (operands_as_outputs m)[slot := Output nd idx]
                                else operands_as_outputs m)" by blast
    from al m(1) have "length (operands m) = length (operands_as_outputs m)"
      unfolding operands_aligned_def by blast
    with m show "length (operands n) = length (operands_as_outputs n)" by simp
  qed
  show "uses_consistent g'"
    unfolding uses_consistent_def
  proof (intro allI impI)
    fix p n u assume a: "g' p = Some n \<and> u \<in> set (uses n)"
    from a edges [of p n] obtain m where m: "g p = Some m"
      and um: "uses n = (let u1 = (if p = ?old then set_erase g ?uo (uses m) else uses m)
                         in if p = nd then set_insert g ?un u1 else u1)" by blast
    define u1 where "u1 = (if p = ?old then set_erase g ?uo (uses m) else uses m)"
    have "(p = nd \<and> u = ?un) \<or> u \<in> set u1"
    proof (cases "p = nd")
      case True
      with um have "uses n = set_insert g ?un u1" by (simp add: Let_def u1_def)
      with a have "u \<in> set (set_insert g ?un u1)" by simp
      then have "u \<in> insert ?un (set u1)" by (rule subsetD [OF set_set_insert])
      with True show ?thesis by auto
    next
      case False
      with um have "uses n = u1" by (simp add: Let_def u1_def)
      with a show ?thesis by simp
    qed
    moreover have "u \<in> set (uses m) \<and> (p = ?old \<longrightarrow> \<not> Use_equiv g ?uo u)" if "u \<in> set u1"
      using that by (auto simp: u1_def set_set_erase split: if_splits)
    ultimately consider (new) "p = nd" "u = ?un"
      | (old) "u \<in> set (uses m)" "p = ?old \<longrightarrow> \<not> Use_equiv g ?uo u"
      by blast
    then show "\<exists>c. g' (Use_node u) = Some c
           \<and> operand_index u < length (operands c)
           \<and> operand_index u < length (operands_as_outputs c)
           \<and> operands c ! operand_index u = p
           \<and> operands_as_outputs c ! operand_index u = Output p (Use_index u)"
    proof cases
      case new
      from live [OF t] obtain t' where t': "g' this = Some t'" by blast
      from edges [OF t'] t have "operands t' = (operands t)[slot := nd]"
        "operands_as_outputs t' = (operands_as_outputs t)[slot := Output nd idx]" by auto
      with new t' sl show ?thesis by simp
    next
      case old
      with m uc obtain c where c: "g (Use_node u) = Some c"
        "operand_index u < length (operands c)"
        "operand_index u < length (operands_as_outputs c)"
        "operands c ! operand_index u = p"
        "operands_as_outputs c ! operand_index u = Output p (Use_index u)"
        unfolding uses_consistent_def by metis
      from live [OF c(1)] obtain c' where c': "g' (Use_node u) = Some c'" by blast
      from edges [OF c'] c(1) have e:
        "operands c' = (if Use_node u = this then (operands c)[slot := nd] else operands c)"
        "operands_as_outputs c' = (if Use_node u = this
            then (operands_as_outputs c)[slot := Output nd idx]
            else operands_as_outputs c)" by auto
      have "\<not> (Use_node u = this \<and> operand_index u = slot)"
      proof
        assume b: "Use_node u = this \<and> operand_index u = slot"
        with c t have "c = t" by simp
        with c b have p: "p = ?old" and "operands_as_outputs t ! slot = Output p (Use_index u)"
          by simp_all
        with b have "?uo = u" using Use_collapse [of u] by simp
        with old(2) p show False by (simp add: Use_equiv_refl)
      qed
      with c c' e show ?thesis by auto
    qed
  qed
qed

lemma ReplaceOperand_keeps_redirected:
  assumes ok: "ReplaceOperand g this slot nd idx = Inr g'"
    and c: "g x = Some c" "i < length (operands c)" "i < length (operands_as_outputs c)"
      "operands c ! i = nd" "operands_as_outputs c ! i = Output nd idx"
  shows "\<exists>c'. g' x = Some c' \<and> i < length (operands c') \<and> i < length (operands_as_outputs c')
           \<and> operands c' ! i = nd \<and> operands_as_outputs c' ! i = Output nd idx"
proof -
  from ReplaceOperand_cases [OF ok] obtain t where t: "g this = Some t" by blast
  note eff = ReplaceOperand_effect [OF ok t]
  from eff(2) [of x] c(1) obtain c' where c': "g' x = Some c'" by (cases "g' x") auto
  with eff(2) [of x] eff(3) [of x] c(1) have e:
    "operands c' = (if x = this then (operands c)[slot := nd] else operands c)"
    "operands_as_outputs c' = (if x = this then (operands_as_outputs c)[slot := Output nd idx]
                               else operands_as_outputs c)" by auto
  have "(operands c)[slot := nd] ! i = nd"
    using c(2,4) by (cases "slot = i") simp_all
  moreover have "(operands_as_outputs c)[slot := Output nd idx] ! i = Output nd idx"
    using c(3,5) by (cases "slot = i") simp_all
  ultimately have "operands c' ! i = nd" "operands_as_outputs c' ! i = Output nd idx"
    using e c(4,5) by (simp_all split: if_splits)
  moreover have "i < length (operands c')" "i < length (operands_as_outputs c')"
    using e c(2,3) by (simp_all split: if_splits)
  ultimately show ?thesis using c' by simp
qed

lemma ReplaceAllUsesWith_loop_keeps_redirected:
  "ReplaceAllUsesWith_loop g us nd idx = Inr g' \<Longrightarrow>
   g x = Some c \<Longrightarrow> i < length (operands c) \<Longrightarrow> i < length (operands_as_outputs c) \<Longrightarrow>
   operands c ! i = nd \<Longrightarrow> operands_as_outputs c ! i = Output nd idx \<Longrightarrow>
   \<exists>c'. g' x = Some c' \<and> i < length (operands c') \<and> i < length (operands_as_outputs c')
           \<and> operands c' ! i = nd \<and> operands_as_outputs c' ! i = Output nd idx"
proof (induction us arbitrary: g c)
  case Nil
  then show ?case by simp
next
  case (Cons u us)
  from Cons.prems(1) obtain g1 where
    g1: "ReplaceOperand g (Use_node u) (operand_index u) nd idx = Inr g1"
    and loop: "ReplaceAllUsesWith_loop g1 us nd idx = Inr g'"
    by (auto split: sum.splits)
  from ReplaceOperand_keeps_redirected [OF g1 Cons.prems(2-6)] obtain c1 where
    "g1 x = Some c1" "i < length (operands c1)" "i < length (operands_as_outputs c1)"
    "operands c1 ! i = nd" "operands_as_outputs c1 ! i = Output nd idx" by blast
  then show ?case by (rule Cons.IH [OF loop])
qed

text \<open>
  What \<^verbatim>\<open>ReplaceAllUsesWith\<close> does achieve: the consumers recorded in the use set are
  redirected and the use set becomes empty.
\<close>

lemma ReplaceAllUsesWith_loop_recorded:
  "ReplaceAllUsesWith_loop g us nd idx = Inr g' \<Longrightarrow>
   uses_consistent g \<Longrightarrow> operands_aligned g \<Longrightarrow> g this = Some a \<Longrightarrow> this \<noteq> nd \<Longrightarrow>
   set (uses a) \<subseteq> set us \<Longrightarrow>
   uses_consistent g' \<and> operands_aligned g' \<and> map_option uses (g' this) = Some []
   \<and> list_all (\<lambda>u. \<exists>c'. g' (Use_node u) = Some c'
                    \<and> operand_index u < length (operands c')
                    \<and> operand_index u < length (operands_as_outputs c')
                    \<and> operands c' ! operand_index u = nd
                    \<and> operands_as_outputs c' ! operand_index u = Output nd idx) us"
proof (induction us arbitrary: g a)
  case Nil
  then show ?case by simp
next
  case (Cons u us)
  from Cons.prems(1) obtain g1 where
    g1: "ReplaceOperand g (Use_node u) (operand_index u) nd idx = Inr g1"
    and loop: "ReplaceAllUsesWith_loop g1 us nd idx = Inr g'"
    by (auto split: sum.splits)
  note inv1 = ReplaceOperand_invariants [OF g1 Cons.prems(2,3)]
  from ReplaceOperand_cases [OF g1] obtain c where c: "g (Use_node u) = Some c" by blast
  note eff = ReplaceOperand_effect [OF g1 c]
  let ?old = "operands c ! operand_index u"
  let ?uo = "Use (Use_node u) (operand_index u)
               (Output_index (operands_as_outputs c ! operand_index u))"
  from eff(1) [of this] Cons.prems(4,5) obtain a1 where a1: "g1 this = Some a1"
    and ua1: "uses a1 = (if this = ?old then set_erase g ?uo (uses a) else uses a)"
    by (cases "g1 this") (auto simp: Let_def)
  have sub1: "set (uses a1) \<subseteq> set us"
  proof
    fix v assume v: "v \<in> set (uses a1)"
    with ua1 have va: "v \<in> set (uses a)" by (auto simp: set_set_erase split: if_splits)
    have "v \<noteq> u"
    proof
      assume "v = u"
      with va Cons.prems(2,4) c have "?old = this"
        "operands_as_outputs c ! operand_index u = Output this (Use_index u)"
        unfolding uses_consistent_def by fastforce+
      then have "this = ?old" "?uo = u" using Use_collapse [of u] by simp_all
      with ua1 v \<open>v = u\<close> show False by (simp add: set_set_erase Use_equiv_refl)
    qed
    with va Cons.prems(6) show "v \<in> set us" by auto
  qed
  from Cons.IH [OF loop inv1 a1 Cons.prems(5) sub1]
  have IH: "uses_consistent g' \<and> operands_aligned g' \<and> map_option uses (g' this) = Some []
   \<and> list_all (\<lambda>u. \<exists>c'. g' (Use_node u) = Some c'
                    \<and> operand_index u < length (operands c')
                    \<and> operand_index u < length (operands_as_outputs c')
                    \<and> operands c' ! operand_index u = nd
                    \<and> operands_as_outputs c' ! operand_index u = Output nd idx) us" .
  from ReplaceOperand_cases [OF g1] c have sl: "operand_index u < length (operands c)"
    "operand_index u < length (operands_as_outputs c)" by auto
  from ReplaceOperand_summary(1) [OF g1 c] sl obtain c1 where
    "g1 (Use_node u) = Some c1" "operand_index u < length (operands c1)"
    "operand_index u < length (operands_as_outputs c1)"
    "operands c1 ! operand_index u = nd"
    "operands_as_outputs c1 ! operand_index u = Output nd idx" by auto
  from ReplaceAllUsesWith_loop_keeps_redirected [OF loop this]
  have "\<exists>c'. g' (Use_node u) = Some c'
                    \<and> operand_index u < length (operands c')
                    \<and> operand_index u < length (operands_as_outputs c')
                    \<and> operands c' ! operand_index u = nd
                    \<and> operands_as_outputs c' ! operand_index u = Output nd idx" .
  with IH show ?case by simp
qed

lemma ReplaceAllUsesWith_recorded:
  assumes ok: "ReplaceAllUsesWith g this nd idx = Inr g'"
    and inv: "uses_consistent g" "operands_aligned g" and a: "g this = Some a" and ne: "this \<noteq> nd"
  shows "uses_consistent g' \<and> operands_aligned g' \<and> map_option uses (g' this) = Some []
   \<and> list_all (\<lambda>u. \<exists>c'. g' (Use_node u) = Some c'
                    \<and> operand_index u < length (operands c')
                    \<and> operand_index u < length (operands_as_outputs c')
                    \<and> operands c' ! operand_index u = nd
                    \<and> operands_as_outputs c' ! operand_index u = Output nd idx) (uses a)"
proof -
  from ok a have "ReplaceAllUsesWith_loop g (uses a) nd idx = Inr g'"
    by (simp add: ReplaceAllUsesWith_def)
  from ReplaceAllUsesWith_loop_recorded [OF this inv a ne] show ?thesis by simp
qed

text \<open>
  C4. \<^verbatim>\<open>ReplaceOperand\<close> is to record a use of this node on the new operand. The consumers
  at 3 and 4 have the same operator kind; 3 takes output 0 of node 1 and 4 takes output 0 of
  node 2. Replacing operand 0 of the consumer 4 by output 0 of node 1 overwrites the stored
  output and removes the use from node 2, but the use set of node 1 stays as it was: it
  holds the use of the consumer 3, which the order of uses cannot tell from the new one, and
  no use of the consumer 4 is added.
\<close>

theorem C4_equivalent_use_not_added:
  "\<exists>g g'. separate_consumers = Inr g
     \<and> map_option uses (g 1) = Some [Use 3 0 0]
     \<and> map_option uses (g 2) = Some [Use 4 0 0]
     \<and> ReplaceOperand g 4 0 1 0 = Inr g'
     \<and> map_option operands_as_outputs (g' 4) = Some [Output 1 0]
     \<and> map_option hash (g' 4) = map_option hash (g 4)
     \<and> map_option node_hash (g' 4) = map_option node_hash (g 4)
     \<and> map_option shape (g' 4) = map_option shape (g 4)
     \<and> map_option uses (g' 2) = Some []
     \<and> map_option uses (g' 1) = Some [Use 3 0 0]"
  by (simp add: eval_defs)

text \<open>
  C2. \<^verbatim>\<open>ReplaceAllUsesWith\<close> is to redirect every consumer of the node. The consumers at
  3 and 4 have the same operator kind and both take output 0 of node 1 as operand 0, so the
  use set of node 1 holds one use for the two of them. Replacing all uses of node 1 by
  output 0 of node 2 redirects the consumer 3 and empties the use set of node 1, while the
  consumer 4 still has output 0 of node 1 as its operand.
\<close>

theorem C2_same_op_consumer_not_redirected:
  "\<exists>g g'. two_consumers = Inr g
     \<and> map_option operands_as_outputs (g 3) = Some [Output 1 0]
     \<and> map_option operands_as_outputs (g 4) = Some [Output 1 0]
     \<and> map_option uses (g 1) = Some [Use 3 0 0]
     \<and> ReplaceAllUsesWith g 1 2 0 = Inr g'
     \<and> map_option operands_as_outputs (g' 3) = Some [Output 2 0]
     \<and> map_option operands_as_outputs (g' 4) = Some [Output 1 0]
     \<and> map_option operands (g' 4) = Some [1]
     \<and> map_option uses (g' 1) = Some []"
  by (simp add: eval_defs)

subsection \<open>Reachable heaps\<close>

text \<open>Every operation keeps the invariant of the use sets, so every reachable heap has it.\<close>

lemma ReplaceAllUsesWith_loop_invariants:
  "ReplaceAllUsesWith_loop g us nd idx = Inr g' \<Longrightarrow> uses_consistent g \<Longrightarrow> operands_aligned g \<Longrightarrow>
   uses_consistent g' \<and> operands_aligned g'"
proof (induction us arbitrary: g)
  case Nil
  then show ?case by simp
next
  case (Cons u us)
  from Cons.prems(1) obtain g1 where
    g1: "ReplaceOperand g (Use_node u) (operand_index u) nd idx = Inr g1"
    and loop: "ReplaceAllUsesWith_loop g1 us nd idx = Inr g'"
    by (auto split: sum.splits)
  from ReplaceOperand_invariants [OF g1 Cons.prems(2,3)]
  show ?case by (rule Cons.IH [OF loop])
qed

lemma Node_dtor_invariants:
  assumes ok: "Node_dtor g this = Inr g'" and uc: "uses_consistent g" and al: "operands_aligned g"
  shows "uses_consistent g'" and "operands_aligned g'"
proof -
  from ok obtain t g1 where t: "g this = Some t"
    and loop: "Node_dtor_loop g this t [0 ..< length (operands_as_outputs t)] = Inr g1"
    and g': "g' = g1(this := None)"
    by (auto simp: Node_dtor_def split: option.splits sum.splits)
  note eff = Node_dtor_loop_effect [OF loop]
  have bwd: "\<exists>m. g p = Some m \<and> operands n = operands m
                \<and> operands_as_outputs n = operands_as_outputs m \<and> set (uses n) \<subseteq> set (uses m)"
    if "g1 p = Some n" for p n
    using eff [of p] that by (cases "g p") auto
  have fwd: "\<exists>n. g1 p = Some n \<and> operands n = operands m
                \<and> operands_as_outputs n = operands_as_outputs m" if "g p = Some m" for p m
    using eff [of p] that by (cases "g1 p") auto
  show "operands_aligned g'"
    unfolding operands_aligned_def g'
  proof (intro allI impI)
    fix p n assume "(g1(this := None)) p = Some n"
    then have "g1 p = Some n" by (auto split: if_splits)
    from bwd [OF this] al show "length (operands n) = length (operands_as_outputs n)"
      unfolding operands_aligned_def by auto
  qed
  have live: "list_all (\<lambda>q. g q \<noteq> None) (operands t)"
  proof -
    have lt: "length (operands t) = length (operands_as_outputs t)"
      using al t unfolding operands_aligned_def by blast
    have "g (operands t ! i) \<noteq> None" if "i < length (operands t)" for i
    proof -
      from that lt have "i \<in> set [0 ..< length (operands_as_outputs t)]" by simp
      from split_list [OF this] obtain xs ys where
        "[0 ..< length (operands_as_outputs t)] = xs @ i # ys" by blast
      with loop have l: "Node_dtor_loop g this t (xs @ i # ys) = Inr g1" by simp
      have "Node_dtor_loop h this t (xs @ i # ys) = Inr g1 \<Longrightarrow> h (operands t ! i) \<noteq> None" for h
      proof (induction xs arbitrary: h)
        case Nil
        then show ?case by (auto simp: RemoveUse_def split: if_splits sum.splits option.splits)
      next
        case (Cons x xs)
        from Cons.prems obtain h1 where
          h1: "RemoveUse h (operands t ! x) (Use this x (Output_index (operands_as_outputs t ! x)))
                 = Inr h1"
          and r: "Node_dtor_loop h1 this t (xs @ i # ys) = Inr g1"
          by (auto split: if_splits sum.splits)
        from Cons.IH [OF r] have "h1 (operands t ! i) \<noteq> None" .
        with RemoveUse_cases [OF h1] show ?case by (auto split: if_splits)
      qed
      from this [OF l] show ?thesis .
    qed
    then show ?thesis by (simp add: list_all_length)
  qed
  from Node_dtor_no_back_reference [OF uc al t live] ok
  have none: "\<And>p n u. g' p = Some n \<Longrightarrow> u \<in> set (uses n) \<Longrightarrow> Use_node u \<noteq> this" by auto
  show "uses_consistent g'"
    unfolding uses_consistent_def
  proof (intro allI impI)
    fix p n u assume a: "g' p = Some n \<and> u \<in> set (uses n)"
    then have g1p: "g1 p = Some n" by (auto simp: g' split: if_splits)
    from bwd [OF g1p] a obtain m where m: "g p = Some m" "u \<in> set (uses m)" by auto
    with uc obtain c where c: "g (Use_node u) = Some c"
      "operand_index u < length (operands c)"
      "operand_index u < length (operands_as_outputs c)"
      "operands c ! operand_index u = p"
      "operands_as_outputs c ! operand_index u = Output p (Use_index u)"
      unfolding uses_consistent_def by metis
    from none a have "Use_node u \<noteq> this" by blast
    with fwd [OF c(1)] c show "\<exists>c. g' (Use_node u) = Some c
           \<and> operand_index u < length (operands c)
           \<and> operand_index u < length (operands_as_outputs c)
           \<and> operands c ! operand_index u = p
           \<and> operands_as_outputs c ! operand_index u = Output p (Use_index u)"
      by (auto simp: g')
  qed
qed

lemma Node_ctor_lazy_invariants:
  assumes "Node_ctor_lazy ext ts shape_cache g this k ops shape_fn n_out hash_seed = Inr (g', c, calls)"
    and "uses_consistent g" and "operands_aligned g"
  shows "uses_consistent g'" and "operands_aligned g'"
proof -
  from assms(1) obtain g1 t v where
    1: "Node_ctor ext ts g this k ops Shape_default n_out hash_seed = Inr g1"
    and t: "g1 this = Some t" and g': "g' = g1(this \<mapsto> t\<lparr>shape := v\<rparr>)"
    by (auto simp: Node_ctor_lazy_def split: sum.splits option.splits prod.splits)
  note i1 = Node_ctor_invariants [OF 1 assms(2,3)]
  show "uses_consistent g'" and "operands_aligned g'"
    unfolding g' by (rule invariants_cong [OF _ _ _ i1]; use t in simp)+
qed

lemma reachable_invariants: "reachable g \<Longrightarrow> uses_consistent g \<and> operands_aligned g"
proof (induction rule: reachable.induct)
  case reachable_empty
  show ?case by (simp add: empty_invariants)
next
  case (reachable_leaf g ext ts this k shp n_out hash_seed g')
  from reachable_leaf(3) have a: "uses_consistent g" and b: "operands_aligned g" by simp_all
  from Node_ctor_leaf_invariants [OF reachable_leaf(2) a b] show ?case by simp
next
  case (reachable_node g ext ts this k ops shp n_out hash_seed g')
  from reachable_node(3) have a: "uses_consistent g" and b: "operands_aligned g" by simp_all
  from Node_ctor_invariants [OF reachable_node(2) a b] show ?case by simp
next
  case (reachable_lazy g ext ts shape_cache this k ops shape_fn n_out hash_seed g' c calls)
  from reachable_lazy(3) have a: "uses_consistent g" and b: "operands_aligned g" by simp_all
  from Node_ctor_lazy_invariants [OF reachable_lazy(2) a b] show ?case by simp
next
  case (reachable_replace g this slot nd idx g')
  from reachable_replace(3) have a: "uses_consistent g" and b: "operands_aligned g" by simp_all
  from ReplaceOperand_invariants [OF reachable_replace(2) a b] show ?case by simp
next
  case (reachable_replace_all g this nd idx g')
  from reachable_replace_all(3) have a: "uses_consistent g" and b: "operands_aligned g"
    by simp_all
  from reachable_replace_all(2) obtain t :: Node where
    "ReplaceAllUsesWith_loop g (uses t) nd idx = Inr g'"
    by (auto simp: ReplaceAllUsesWith_def split: option.splits)
  from ReplaceAllUsesWith_loop_invariants [OF this a b] show ?case .
next
  case (reachable_destroy g this g')
  from reachable_destroy(3) have a: "uses_consistent g" and b: "operands_aligned g" by simp_all
  from Node_dtor_invariants [OF reachable_destroy(2) a b] show ?case by simp
qed

end
